theory Spec2Isabelle
  imports Main "HOL-Library.Word" "HOL-Library.Char_ord"
begin

unbundle bit_operations_syntax

section \<open>The version comparator of \<^verbatim>\<open>libversion/compare.c\<close>\<close>

text \<open>
  A C string is a \<^typ>\<open>string\<close> (a list of bytes). The terminating NUL is implicit at the
  end of the list, and a NUL byte inside the list terminates the C string there just as it
  does in memory: the code never reads past it. A cursor \<^verbatim>\<open>const char*\<close> into a string is
  the suffix of the list that starts at the cursor, so \<^verbatim>\<open>*cur\<close> is \<open>peek cur\<close> and
  \<^verbatim>\<open>cur++\<close> drops the head.
\<close>

subsection \<open>Types and constants\<close>

text \<open>
  \<^verbatim>\<open>version_component_t\<close> is \<^verbatim>\<open>int64_t\<close>. Components are modelled as \<^typ>\<open>int\<close>;
  the only arithmetic on them is the guarded multiply-add of \<open>parse_number\<close>, whose guard
  keeps every value within \<open>VERSION_COMPONENT_MAX\<close> (lemma \<open>parse_number_range\<close>), so no
  operation of the model leaves the 64-bit range.
\<close>

definition VERSION_COMPONENT_MAX :: int where
  "VERSION_COMPONENT_MAX = 2 ^ 63 - 1"

text \<open>The struct \<^verbatim>\<open>unit_t\<close>; its fields \<^verbatim>\<open>a\<close>, \<^verbatim>\<open>b\<close>, \<^verbatim>\<open>c\<close> are \<open>ua\<close>, \<open>ub\<close>, \<open>uc\<close>.\<close>

record unit_t =
  ua :: int
  ub :: int
  uc :: int

type_synonym flags = "32 word"

text \<open>
  Modelled from the spec: the header \<^verbatim>\<open>libversion/version.h\<close> with the flag bits is not
  among the sources. The spec names four per-side flags (P_IS_PATCH, ANY_IS_PATCH,
  LOWER_BOUND, UPPER_BOUND); they are four distinct bits of the flag word.
\<close>

definition VERSIONFLAG_P_IS_PATCH :: flags where
  "VERSIONFLAG_P_IS_PATCH = 1"

definition VERSIONFLAG_ANY_IS_PATCH :: flags where
  "VERSIONFLAG_ANY_IS_PATCH = 2"

definition VERSIONFLAG_LOWER_BOUND :: flags where
  "VERSIONFLAG_LOWER_BOUND = 4"

definition VERSIONFLAG_UPPER_BOUND :: flags where
  "VERSIONFLAG_UPPER_BOUND = 8"

definition ALPHAFLAG_PRERELEASE :: int where
  "ALPHAFLAG_PRERELEASE = 1"

definition ALPHAFLAG_POSTRELEASE :: int where
  "ALPHAFLAG_POSTRELEASE = 2"

definition NUL :: char where
  "NUL = CHR 0x00"

text \<open>\<^verbatim>\<open>*cur\<close>: the byte at the cursor, the terminator at the end of the list.\<close>

fun peek :: "string \<Rightarrow> char" where
  "peek [] = NUL"
| "peek (ch # cur) = ch"

subsection \<open>Units and character classes\<close>

definition compare_units :: "unit_t \<Rightarrow> unit_t \<Rightarrow> int" where
  "compare_units u1 u2 =
     (if ua u1 < ua u2 then -1
      else if ua u1 > ua u2 then 1
      else if ub u1 < ub u2 then -1
      else if ub u1 > ub u2 then 1
      else if uc u1 < uc u2 then -1
      else if uc u1 > uc u2 then 1
      else 0)"

definition is_digit :: "char \<Rightarrow> bool" where
  "is_digit ch \<longleftrightarrow> ch \<ge> CHR ''0'' \<and> ch \<le> CHR ''9''"

definition is_letter :: "char \<Rightarrow> bool" where
  "is_letter ch \<longleftrightarrow> (ch \<ge> CHR ''a'' \<and> ch \<le> CHR ''z'') \<or> (ch \<ge> CHR ''A'' \<and> ch \<le> CHR ''Z'')"

definition is_version_char :: "char \<Rightarrow> bool" where
  "is_version_char ch \<longleftrightarrow>
     (ch \<ge> CHR ''0'' \<and> ch \<le> CHR ''9'') \<or> (ch \<ge> CHR ''a'' \<and> ch \<le> CHR ''z'') \<or>
     (ch \<ge> CHR ''A'' \<and> ch \<le> CHR ''Z'')"

subsection \<open>The number parser\<close>

text \<open>
  The \<^verbatim>\<open>while\<close> loop of \<open>parse_number\<close>, with the cursor and \<^verbatim>\<open>component\<close> as its state.
  The C division truncates; its operands here are never negative, where it agrees with
  \<open>div\<close>.
\<close>

fun parse_number_loop :: "string \<Rightarrow> int \<Rightarrow> string \<times> int" where
  "parse_number_loop [] component = ([], component)"
| "parse_number_loop (ch # cur) component =
     (if ch \<ge> CHR ''0'' \<and> ch \<le> CHR ''9'' then
        (let number = int (of_char ch) - int (of_char CHR ''0'') in
         parse_number_loop cur
           (if component \<le> (VERSION_COMPONENT_MAX - number) div 10
            then component * 10 + number
            else VERSION_COMPONENT_MAX))
      else (ch # cur, component))"

text \<open>
  \<open>parse_number str\<close> returns the new value of \<^verbatim>\<open>*str\<close> and the result. The cursor
  \<^verbatim>\<open>cur\<close> is a suffix of \<^verbatim>\<open>*str\<close>, so the pointers are equal exactly when the lists
  have the same length.
\<close>

definition parse_number :: "string \<Rightarrow> string \<times> int" where
  "parse_number str =
     (case parse_number_loop str 0 of (cur, component) \<Rightarrow>
        if length cur = length str then (str, -1) else (cur, component))"

subsection \<open>The alpha parser\<close>

definition lowercase :: "char \<Rightarrow> nat" where
  "lowercase ch =
     (if ch \<ge> CHR ''A'' \<and> ch \<le> CHR ''Z''
      then of_char ch - of_char CHR ''A'' + of_char CHR ''a''
      else of_char ch)"

fun mymemcasecmp :: "string \<Rightarrow> string \<Rightarrow> nat \<Rightarrow> int" where
  "mymemcasecmp x y 0 = 0"
| "mymemcasecmp x y (Suc len) =
     (let ua' = lowercase (peek x); ub' = lowercase (peek y) in
      if ua' \<noteq> ub' then int ua' - int ub'
      else mymemcasecmp (tl x) (tl y) len)"

text \<open>
  \<open>parse_alpha str flags\<close> returns the new value of \<^verbatim>\<open>*str\<close>, \<^verbatim>\<open>*outflags\<close> and the
  result. \<open>n\<close> is \<^verbatim>\<open>cur - *str\<close>.
\<close>

definition parse_alpha :: "string \<Rightarrow> flags \<Rightarrow> string \<times> int \<times> int" where
  "parse_alpha str flags =
     (let start = peek str;
          cur = dropWhile is_letter str;
          n = length str - length cur
      in
        if n = 0 then (str, 0, -1)
        else
          (cur,
           (if n = 5 \<and> mymemcasecmp str ''alpha'' 5 = 0 then ALPHAFLAG_PRERELEASE
            else if n = 4 \<and> mymemcasecmp str ''beta'' 4 = 0 then ALPHAFLAG_PRERELEASE
            else if n = 2 \<and> mymemcasecmp str ''rc'' 2 = 0 then ALPHAFLAG_PRERELEASE
            else if n \<ge> 3 \<and> mymemcasecmp str ''pre'' 3 = 0 then ALPHAFLAG_PRERELEASE
            else if n \<ge> 4 \<and> mymemcasecmp str ''post'' 4 = 0 then ALPHAFLAG_POSTRELEASE
            else if n = 5 \<and> mymemcasecmp str ''patch'' 5 = 0 then ALPHAFLAG_POSTRELEASE
            else if n = 2 \<and> mymemcasecmp str ''pl'' 2 = 0 then ALPHAFLAG_POSTRELEASE
            else if n = 6 \<and> mymemcasecmp str ''errata'' 2 = 0 then ALPHAFLAG_POSTRELEASE
            else if flags AND VERSIONFLAG_P_IS_PATCH \<noteq> 0 \<and> n = 1 \<and>
                    (peek str = CHR ''p'' \<or> peek str = CHR ''P'') then ALPHAFLAG_POSTRELEASE
            else 0),
           (if start \<ge> CHR ''A'' \<and> start \<le> CHR ''Z''
            then int (of_char start) - int (of_char CHR ''A'') + int (of_char CHR ''a'')
            else int (of_char start))))"

subsection \<open>The component extractor\<close>

text \<open>The condition of the loop that skips separators: \<^verbatim>\<open>**str != '\\0' && !is_version_char(**str)\<close>.\<close>

definition is_separator :: "char \<Rightarrow> bool" where
  "is_separator ch \<longleftrightarrow> ch \<noteq> NUL \<and> \<not> is_version_char ch"

definition mk_unit :: "int \<Rightarrow> int \<Rightarrow> int \<Rightarrow> unit_t" where
  "mk_unit x y z = \<lparr>ua = x, ub = y, uc = z\<rparr>"

text \<open>
  \<open>get_next_version_component str target flags\<close> returns the new value of \<^verbatim>\<open>*str\<close>, the
  buffer \<^verbatim>\<open>target\<close> after the writes to \<^verbatim>\<open>target[0]\<close> and \<^verbatim>\<open>target[1]\<close>, and the
  number of units written. The local \<^verbatim>\<open>end\<close> of the source is computed and never read.
\<close>

definition get_next_version_component :: "string \<Rightarrow> unit_t list \<Rightarrow> flags \<Rightarrow> string \<times> unit_t list \<times> nat" where
  "get_next_version_component str0 target flags =
     (let str = dropWhile is_separator str0 in
      if peek str = NUL then
        (if flags AND VERSIONFLAG_LOWER_BOUND \<noteq> 0 then
           (str, target[0 := mk_unit (-2) (-2) (-2)], 1)
         else if flags AND VERSIONFLAG_UPPER_BOUND \<noteq> 0 then
           (str, target[0 := mk_unit VERSION_COMPONENT_MAX VERSION_COMPONENT_MAX VERSION_COMPONENT_MAX], 1)
         else
           (str, target[0 := mk_unit 0 (-1) (-1)], 1))
      else
        (case parse_number str of (str1, number) \<Rightarrow>
         case parse_alpha str1 flags of (str2, alphaflags0, alpha) \<Rightarrow>
         case parse_number str2 of (str3, extranumber) \<Rightarrow>
         let str4 = dropWhile is_version_char str3;
             alphaflags = (if flags AND VERSIONFLAG_ANY_IS_PATCH \<noteq> 0
                           then ALPHAFLAG_POSTRELEASE else alphaflags0)
         in
           if number \<noteq> -1 \<and> extranumber \<noteq> -1 then
             (str4,
              target[0 := mk_unit number (-1) (-1),
                     1 := mk_unit (if alphaflags = ALPHAFLAG_POSTRELEASE then 0 else -1) alpha extranumber],
              2)
           else if number \<noteq> -1 \<and> alpha \<noteq> -1 \<and> alphaflags \<noteq> 0 then
             (str4,
              target[0 := mk_unit number (-1) (-1),
                     1 := mk_unit (if alphaflags = ALPHAFLAG_POSTRELEASE then 0 else -1) alpha (-1)],
              2)
           else
             (str4,
              target[0 := mk_unit (if number = -1 \<and> alphaflags = ALPHAFLAG_POSTRELEASE then 0 else number)
                                  alpha extranumber],
              1)))"

subsection \<open>The comparator loop\<close>

text \<open>
  One side of the comparison: the cursor \<^verbatim>\<open>v\<close>, the buffer \<^verbatim>\<open>v_units[2]\<close>, \<^verbatim>\<open>v_len\<close> and
  \<^verbatim>\<open>v_extra_components\<close> (0 or 1, decremented only when positive).
\<close>

record side =
  v :: string
  v_units :: "unit_t list"
  v_len :: nat
  v_extra_components :: nat

text \<open>\<^verbatim>\<open>if (v_len == 0) v_len = get_next_version_component(&v, v_units, v_flags);\<close>\<close>

definition refill :: "flags \<Rightarrow> side \<Rightarrow> side" where
  "refill v_flags s =
     (if v_len s = 0 then
        (case get_next_version_component (v s) (v_units s) v_flags of
           (str, target, n) \<Rightarrow> s\<lparr>v := str, v_units := target, v_len := n\<rparr>)
      else s)"

text \<open>
  The first \<^verbatim>\<open>for\<close> loop over \<open>i = 0 ..< shift\<close>: the first non-zero result of
  \<open>compare_units\<close> is returned from the function; 0 means the loop ran to its end.
\<close>

fun compare_loop :: "unit_t list \<Rightarrow> unit_t list \<Rightarrow> nat list \<Rightarrow> int" where
  "compare_loop u1 u2 [] = 0"
| "compare_loop u1 u2 (i # is) =
     (let res = compare_units (u1 ! i) (u2 ! i) in
      if res \<noteq> 0 then res else compare_loop u1 u2 is)"

text \<open>The second \<^verbatim>\<open>for\<close> loop, on one buffer: \<^verbatim>\<open>v_units[i] = v_units[i+shift]\<close>.\<close>

fun shift_loop :: "nat \<Rightarrow> unit_t list \<Rightarrow> nat list \<Rightarrow> unit_t list" where
  "shift_loop shift u [] = u"
| "shift_loop shift u (i # is) = shift_loop shift (u[i := u ! (i + shift)]) is"

text \<open>
  What follows the two \<^verbatim>\<open>for\<close> loops, on one side: the length is reduced, exhaustion is
  determined and a residual extra component is consumed. The result is the side and the
  final value of \<^verbatim>\<open>v_exhausted\<close>.
\<close>

definition advance :: "bool \<Rightarrow> nat \<Rightarrow> side \<Rightarrow> side \<times> bool" where
  "advance differ shift s =
     (let units = (if differ then shift_loop shift (v_units s) [0..<shift] else v_units s);
          len = v_len s - shift;
          exhausted = (peek (v s) = NUL \<and> len = 0)
      in
        if exhausted \<and> v_extra_components s > 0 then
          (s\<lparr>v_units := units, v_len := len, v_extra_components := v_extra_components s - 1\<rparr>, False)
        else
          (s\<lparr>v_units := units, v_len := len\<rparr>, exhausted))"

text \<open>
  One pass through the body of the \<^verbatim>\<open>do ... while\<close> loop: \<open>Inl res\<close> when the function
  returns (from inside the loop, or 0 after the loop condition failed), \<open>Inr\<close> of the next
  state when the loop goes round again.
\<close>

definition iteration :: "flags \<Rightarrow> flags \<Rightarrow> side \<times> side \<Rightarrow> int + side \<times> side" where
  "iteration v1_flags v2_flags st =
     (let s1 = refill v1_flags (fst st);
          s2 = refill v2_flags (snd st);
          shift = min (v_len s1) (v_len s2);
          res = compare_loop (v_units s1) (v_units s2) [0..<shift]
      in
        if res \<noteq> 0 then Inl res
        else
          (case advance (v_len s1 \<noteq> v_len s2) shift s1 of (s1', v1_exhausted) \<Rightarrow>
           case advance (v_len s1 \<noteq> v_len s2) shift s2 of (s2', v2_exhausted) \<Rightarrow>
             if \<not> v1_exhausted \<or> \<not> v2_exhausted then Inr (s1', s2') else Inl 0))"

text \<open>
  The \<^verbatim>\<open>do ... while\<close> loop. Its termination is proved below, from the measure
  \<open>loop_measure\<close>.
\<close>

function loop :: "flags \<Rightarrow> flags \<Rightarrow> side \<times> side \<Rightarrow> int" where
  "loop v1_flags v2_flags st =
     (case iteration v1_flags v2_flags st of
        Inl res \<Rightarrow> res
      | Inr st' \<Rightarrow> loop v1_flags v2_flags st')"
  by pat_completeness auto

text \<open>
  The buffers \<^verbatim>\<open>v1_units\<close> and \<^verbatim>\<open>v2_units\<close> are not initialised by the source; the
  model starts them with a fixed unit. Only entries written by the extractor are ever
  compared (an entry below \<^verbatim>\<open>v_len\<close>).
\<close>

definition indeterminate :: unit_t where
  "indeterminate = mk_unit 0 0 0"

definition init_side :: "string \<Rightarrow> flags \<Rightarrow> side" where
  "init_side str v_flags =
     \<lparr>v = str, v_units = [indeterminate, indeterminate], v_len = 0,
      v_extra_components =
        (if v_flags AND (VERSIONFLAG_LOWER_BOUND OR VERSIONFLAG_UPPER_BOUND) \<noteq> 0 then 1 else 0)\<rparr>"

definition version_compare4 :: "string \<Rightarrow> string \<Rightarrow> flags \<Rightarrow> flags \<Rightarrow> int" where
  "version_compare4 v1 v2 v1_flags v2_flags =
     loop v1_flags v2_flags (init_side v1 v1_flags, init_side v2 v2_flags)"

definition version_compare2 :: "string \<Rightarrow> string \<Rightarrow> int" where
  "version_compare2 v1 v2 = version_compare4 v1 v2 0 0"

subsection \<open>Measures for the termination of the loop\<close>

text \<open>\<^verbatim>\<open>strlen\<close>: the number of bytes before the terminator.\<close>

definition strlen :: "string \<Rightarrow> nat" where
  "strlen s = length (takeWhile (\<lambda>ch. ch \<noteq> NUL) s)"

text \<open>
  Each side is worth three per byte still to be read, one per buffered unit and one per
  residual extra component.
\<close>

definition side_measure :: "side \<Rightarrow> nat" where
  "side_measure s = 3 * strlen (v s) + v_len s + v_extra_components s"

definition loop_measure :: "side \<times> side \<Rightarrow> nat" where
  "loop_measure st = side_measure (fst st) + side_measure (snd st)"

subsection \<open>The loop with a bound on its iterations\<close>

text \<open>
  The same loop with fuel: \<open>None\<close> when the loop is still running after \<open>n\<close> passes
  through its body.
\<close>

fun loop_fuel :: "nat \<Rightarrow> flags \<Rightarrow> flags \<Rightarrow> side \<times> side \<Rightarrow> int option" where
  "loop_fuel 0 v1_flags v2_flags st = None"
| "loop_fuel (Suc n) v1_flags v2_flags st =
     (case iteration v1_flags v2_flags st of
        Inl res \<Rightarrow> Some res
      | Inr st' \<Rightarrow> loop_fuel n v1_flags v2_flags st')"

definition version_compare4_fuel :: "nat \<Rightarrow> string \<Rightarrow> string \<Rightarrow> flags \<Rightarrow> flags \<Rightarrow> int option" where
  "version_compare4_fuel n v1 v2 v1_flags v2_flags =
     loop_fuel n v1_flags v2_flags (init_side v1 v1_flags, init_side v2 v2_flags)"

subsection \<open>The value of a digit run\<close>

text \<open>
  The contract of the number parser speaks of the value of a run of decimal digits; this is
  that value, without any bound.
\<close>

definition digit_value :: "char \<Rightarrow> int" where
  "digit_value ch = int (of_char ch) - int (of_char CHR ''0'')"

definition decimal_value :: "string \<Rightarrow> int" where
  "decimal_value ds = foldl (\<lambda>n ch. n * 10 + digit_value ch) 0 ds"

subsection \<open>Notions used in the proofs about the loop\<close>

text \<open>The unit that the extractor writes at the end of the string, by the flags of the side.\<close>

definition filler :: "flags \<Rightarrow> unit_t" where
  "filler f =
     (if f AND VERSIONFLAG_LOWER_BOUND \<noteq> 0 then mk_unit (- 2) (- 2) (- 2)
      else if f AND VERSIONFLAG_UPPER_BOUND \<noteq> 0
        then mk_unit VERSION_COMPONENT_MAX VERSION_COMPONENT_MAX VERSION_COMPONENT_MAX
      else mk_unit 0 (- 1) (- 1))"

text \<open>
  Two sides that read the same string in step: same cursor, same buffer, nothing buffered,
  and the first either has an extra component left or is at its end.
\<close>

definition in_step :: "side \<Rightarrow> side \<Rightarrow> bool" where
  "in_step s1 s2 \<longleftrightarrow>
     v s1 = v s2 \<and> v_units s1 = v_units s2 \<and> v_len s1 = 0 \<and> v_len s2 = 0 \<and>
     length (v_units s1) = 2 \<and> (v_extra_components s1 \<ge> 1 \<or> peek (v s1) = NUL)"

subsection \<open>The stream of units of a string\<close>

text \<open>
  The units that one call of the extractor writes (they do not depend on the previous
  contents of the buffer, lemma \<open>get_next_version_component_emitted\<close>), and the units of
  all calls of the extractor up to the end of the string. At the end of the string the
  extractor writes the filler unit, on every call.
\<close>

definition emitted :: "flags \<Rightarrow> string \<Rightarrow> unit_t list" where
  "emitted f s =
     (case get_next_version_component s [indeterminate, indeterminate] f of
        (str, target, n) \<Rightarrow> take n target)"

function components :: "flags \<Rightarrow> string \<Rightarrow> unit_t list" where
  "components f s =
     (if peek s = NUL then []
      else emitted f s @ components f (fst (get_next_version_component s [indeterminate, indeterminate] f)))"
  by pat_completeness auto

text \<open>
  The comparison of two finite lists of units, each continued by the filler unit \<open>fl\<close>
  for ever: the first pair of different units decides.
\<close>

fun padded_compare :: "unit_t \<Rightarrow> unit_t list \<Rightarrow> unit_t list \<Rightarrow> int" where
  "padded_compare fl [] [] = 0"
| "padded_compare fl (x # xs) [] =
     (if compare_units x fl \<noteq> 0 then compare_units x fl else padded_compare fl xs [])"
| "padded_compare fl [] (y # ys) =
     (if compare_units fl y \<noteq> 0 then compare_units fl y else padded_compare fl [] ys)"
| "padded_compare fl (x # xs) (y # ys) =
     (if compare_units x y \<noteq> 0 then compare_units x y else padded_compare fl xs ys)"

text \<open>What a side has still to compare: the buffered units, then the units of the rest of its string.\<close>

definition pending :: "flags \<Rightarrow> side \<Rightarrow> unit_t list" where
  "pending f s = take (v_len s) (v_units s) @ components f (v s)"

text \<open>The buffer has two entries, of which at most two are in use.\<close>

definition buffered :: "side \<Rightarrow> bool" where
  "buffered s \<longleftrightarrow> length (v_units s) = 2 \<and> v_len s \<le> 2"

section \<open>Cursors, and the termination of the loop\<close>

lemma dropWhile_absorb: "(\<And>x. P x \<Longrightarrow> Q x) \<Longrightarrow> dropWhile Q (dropWhile P s) = dropWhile Q s"
  by (induction s) auto

lemma parse_number_loop_fst: "fst (parse_number_loop s acc) = dropWhile is_digit s"
  by (induction s arbitrary: acc) (auto simp: is_digit_def Let_def)

lemma parse_number_fst: "fst (parse_number s) = dropWhile is_digit s"
proof -
  obtain cur n where eq: "parse_number_loop s 0 = (cur, n)" by (cases "parse_number_loop s 0")
  then have cur: "cur = dropWhile is_digit s" using parse_number_loop_fst[of s 0] by simp
  show ?thesis
  proof (cases "length cur = length s")
    case True
    then have "cur = s" unfolding cur
      by (metis length_append takeWhile_dropWhile_id add_cancel_right_left length_0_conv append_Nil)
    then show ?thesis using eq cur by (simp add: parse_number_def)
  next
    case False then show ?thesis using eq cur by (simp add: parse_number_def)
  qed
qed

lemma parse_alpha_fst: "fst (parse_alpha s f) = dropWhile is_letter s"
proof (cases "length s - length (dropWhile is_letter s) = 0")
  case True
  have "length (dropWhile is_letter s) \<le> length s" by (rule length_dropWhile_le)
  with True have "length (dropWhile is_letter s) = length s" by simp
  then have "dropWhile is_letter s = s"
    by (metis length_append takeWhile_dropWhile_id add_cancel_right_left length_0_conv append_Nil)
  with True show ?thesis by (simp add: parse_alpha_def Let_def)
next
  case False then show ?thesis by (simp add: parse_alpha_def Let_def)
qed

lemma digit_version_char: "is_digit ch \<Longrightarrow> is_version_char ch"
  by (simp add: is_digit_def is_version_char_def)

lemma letter_version_char: "is_letter ch \<Longrightarrow> is_version_char ch"
  by (auto simp add: is_letter_def is_version_char_def)

lemma NUL_not_version_char: "\<not> is_version_char NUL"
  by (simp add: is_version_char_def NUL_def)

lemma get_next_version_component_cursor:
  "fst (get_next_version_component s t f) =
     (if peek (dropWhile is_separator s) = NUL
      then dropWhile is_separator s
      else dropWhile is_version_char (dropWhile is_separator s))"
proof -
  define str where "str = dropWhile is_separator s"
  obtain str1 number where p1: "parse_number str = (str1, number)" by (cases "parse_number str")
  obtain str2 af alpha where p2: "parse_alpha str1 f = (str2, af, alpha)" by (cases "parse_alpha str1 f")
  obtain str3 extra where p3: "parse_number str2 = (str3, extra)" by (cases "parse_number str2")
  have s1: "str1 = dropWhile is_digit str" using p1 parse_number_fst[of str] by simp
  have s2: "str2 = dropWhile is_letter str1" using p2 parse_alpha_fst[of str1 f] by simp
  have s3: "str3 = dropWhile is_digit str2" using p3 parse_number_fst[of str2] by simp
  have "dropWhile is_version_char str3 = dropWhile is_version_char str"
    unfolding s3 s2 s1
    by (simp add: dropWhile_absorb digit_version_char letter_version_char)
  then show ?thesis
    using p1 p2 p3 unfolding str_def
    by (simp add: get_next_version_component_def Let_def)
qed

lemma get_next_version_component_len_range:
  "snd (snd (get_next_version_component s t f)) = 1 \<or> snd (snd (get_next_version_component s t f)) = 2"
  by (simp add: get_next_version_component_def Let_def split: prod.splits)

lemma get_next_version_component_len_end:
  "peek (dropWhile is_separator s) = NUL \<Longrightarrow> snd (snd (get_next_version_component s t f)) = 1"
  by (simp add: get_next_version_component_def Let_def split: prod.splits)

lemma get_next_version_component_length:
  "length (fst (snd (get_next_version_component s t f))) = length t"
  by (simp add: get_next_version_component_def Let_def split: prod.splits)

lemma strlen_dropWhile_le: "\<not> P NUL \<Longrightarrow> strlen (dropWhile P s) \<le> strlen s"
  by (induction s) (auto simp: strlen_def)

lemma strlen_dropWhile_less:
  assumes a: "\<not> P NUL" "P (peek s)"
  shows "strlen (dropWhile P s) < strlen s"
proof (cases s)
  case Nil then show ?thesis using a by simp
next
  case (Cons x xs)
  from a have "x \<noteq> NUL" using Cons by auto
  moreover have "strlen (dropWhile P xs) \<le> strlen xs" using a by (simp add: strlen_dropWhile_le)
  ultimately show ?thesis using a Cons by (simp add: strlen_def)
qed

lemma peek_hd: "s \<noteq> [] \<Longrightarrow> peek s = hd s"
  by (cases s) simp_all

lemma peek_dropWhile: "dropWhile P s \<noteq> [] \<Longrightarrow> \<not> P (peek (dropWhile P s))"
  by (simp add: peek_hd hd_dropWhile)

lemma dropWhile_peek_id: "\<not> P (peek s) \<Longrightarrow> dropWhile P s = s"
  by (cases s) auto

lemma separator_NUL: "\<not> is_separator NUL"
  by (simp add: is_separator_def)

lemma get_next_version_component_at_end:
  "peek s = NUL \<Longrightarrow> fst (get_next_version_component s t f) = s"
  by (simp add: get_next_version_component_cursor dropWhile_peek_id separator_NUL)

lemma get_next_version_component_at_end_len:
  "peek s = NUL \<Longrightarrow> snd (snd (get_next_version_component s t f)) = 1"
  by (simp add: get_next_version_component_len_end dropWhile_peek_id separator_NUL)

lemma get_next_version_component_progress:
  assumes "peek s \<noteq> NUL"
  shows "strlen (fst (get_next_version_component s t f)) < strlen s"
proof -
  define str where "str = dropWhile is_separator s"
  show ?thesis
  proof (cases "peek str = NUL")
    case True
    then have "str \<noteq> s" using assms by auto
    then have "is_separator (peek s)" unfolding str_def using dropWhile_peek_id by metis
    then have "strlen str < strlen s" unfolding str_def by (simp add: strlen_dropWhile_less separator_NUL)
    then show ?thesis using True by (simp add: get_next_version_component_cursor str_def)
  next
    case False
    then have "str \<noteq> []" by auto
    then have "\<not> is_separator (peek str)" unfolding str_def by (rule peek_dropWhile)
    with False have "is_version_char (peek str)" by (simp add: is_separator_def)
    then have "strlen (dropWhile is_version_char str) < strlen str"
      by (simp add: strlen_dropWhile_less NUL_not_version_char)
    moreover have "strlen str \<le> strlen s" unfolding str_def by (simp add: strlen_dropWhile_le separator_NUL)
    ultimately show ?thesis using False by (simp add: get_next_version_component_cursor str_def)
  qed
qed

lemma refill_len: "1 \<le> v_len (refill f s) \<and> v_len (refill f s) \<le> max 2 (v_len s)"
  using get_next_version_component_len_range[of "v s" "v_units s" f]
  by (auto simp: refill_def split: prod.splits)

lemma advance_fields:
  "advance d k s = (s', ex) \<Longrightarrow> v s' = v s \<and> v_len s' = v_len s - k"
  by (auto simp: advance_def Let_def split: if_splits)

lemma side_progress:
  assumes "1 \<le> k" "k \<le> v_len (refill f s)" "advance d k (refill f s) = (s', ex)"
  shows "side_measure s' \<le> side_measure s \<and> (\<not> ex \<longrightarrow> side_measure s' < side_measure s)"
proof (cases "v_len s = 0")
  case False
  then have "refill f s = s" by (simp add: refill_def)
  then show ?thesis using assms False
    by (auto simp: advance_def Let_def side_measure_def split: if_splits)
next
  case True
  obtain str tg n where g: "get_next_version_component (v s) (v_units s) f = (str, tg, n)"
    by (cases "get_next_version_component (v s) (v_units s) f")
  then have r: "refill f s = s\<lparr>v := str, v_units := tg, v_len := n\<rparr>" using True by (simp add: refill_def)
  have n: "n = 1 \<or> n = 2" using get_next_version_component_len_range[of "v s" "v_units s" f] g by simp
  show ?thesis
  proof (cases "peek (v s) = NUL")
    case True
    then have "str = v s" "n = 1"
      using get_next_version_component_at_end[of "v s" "v_units s" f]
        get_next_version_component_at_end_len[of "v s" "v_units s" f] g by simp_all
    then show ?thesis using assms r True \<open>v_len s = 0\<close>
      by (auto simp: advance_def Let_def side_measure_def split: if_splits)
  next
    case False
    then have "strlen str < strlen (v s)"
      using get_next_version_component_progress[of "v s" "v_units s" f] g by simp
    then show ?thesis using assms r n \<open>v_len s = 0\<close>
      by (auto simp: advance_def Let_def side_measure_def split: if_splits)
  qed
qed

lemma iteration_progress:
  assumes "iteration f g st = Inr st'"
  shows "loop_measure st' < loop_measure st"
proof -
  define s1 where "s1 = refill f (fst st)"
  define s2 where "s2 = refill g (snd st)"
  define k where "k = min (v_len s1) (v_len s2)"
  obtain t1 e1 where a1: "advance (v_len s1 \<noteq> v_len s2) k s1 = (t1, e1)" by (cases "advance (v_len s1 \<noteq> v_len s2) k s1")
  obtain t2 e2 where a2: "advance (v_len s1 \<noteq> v_len s2) k s2 = (t2, e2)" by (cases "advance (v_len s1 \<noteq> v_len s2) k s2")
  have k: "1 \<le> k" "k \<le> v_len s1" "k \<le> v_len s2"
    using refill_len[of f "fst st"] refill_len[of g "snd st"] by (auto simp: k_def s1_def s2_def)
  from assms have st': "st' = (t1, t2)" and ex: "\<not> e1 \<or> \<not> e2"
    using a1 a2 unfolding iteration_def Let_def s1_def[symmetric] s2_def[symmetric] k_def[symmetric]
    by (auto split: if_splits)
  have p1: "side_measure t1 \<le> side_measure (fst st) \<and> (\<not> e1 \<longrightarrow> side_measure t1 < side_measure (fst st))"
    using side_progress[of k f "fst st" "v_len s1 \<noteq> v_len s2" t1 e1] k a1 by (simp add: s1_def)
  have p2: "side_measure t2 \<le> side_measure (snd st) \<and> (\<not> e2 \<longrightarrow> side_measure t2 < side_measure (snd st))"
    using side_progress[of k g "snd st" "v_len s1 \<noteq> v_len s2" t2 e2] k a2 by (simp add: s2_def)
  show ?thesis using p1 p2 ex by (auto simp: loop_measure_def st')
qed

termination loop
proof (relation "measure (\<lambda>(f, g, st). loop_measure st)")
  show "wf (measure (\<lambda>(f, g, st). loop_measure st))" by (rule wf_measure)
next
  fix v1_flags v2_flags :: flags and st st' :: "side \<times> side"
  assume "iteration v1_flags v2_flags st = Inr st'"
  then have "loop_measure st' < loop_measure st" by (rule iteration_progress)
  then show "((v1_flags, v2_flags, st'), (v1_flags, v2_flags, st)) \<in> measure (\<lambda>(f, g, st). loop_measure st)"
    by simp
qed

section \<open>Termination\<close>

lemma loop_fuel_enough:
  "loop_measure st < n \<Longrightarrow> loop_fuel n f g st = Some (loop f g st)"
proof (induction n arbitrary: st)
  case 0
  then show ?case by simp
next
  case (Suc n)
  show ?case
  proof (cases "iteration f g st")
    case (Inl res)
    then show ?thesis by simp
  next
    case (Inr st')
    then have "loop_measure st' < loop_measure st" by (rule iteration_progress)
    with Suc.prems have "loop_measure st' < n" by simp
    then have "loop_fuel n f g st' = Some (loop f g st')" by (rule Suc.IH)
    with Inr show ?thesis by simp
  qed
qed

lemma init_side_measure: "loop_measure (init_side v1 f, init_side v2 g) < 3 * strlen v1 + 3 * strlen v2 + 3"
  by (simp add: loop_measure_def side_measure_def init_side_def)

text \<open>
  C9: \<open>version_compare4\<close> terminates on every pair of strings and every pair of flag
  words: the loop returns within \<open>3 * strlen v1 + 3 * strlen v2 + 3\<close> passes through its
  body, a bound linear in the combined length of the inputs, with the result of the total
  function \<open>version_compare4\<close>.
\<close>

theorem version_compare4_terminates:
  "version_compare4_fuel (3 * strlen v1 + 3 * strlen v2 + 3) v1 v2 v1_flags v2_flags =
     Some (version_compare4 v1 v2 v1_flags v2_flags)"
  unfolding version_compare4_fuel_def version_compare4_def
  by (rule loop_fuel_enough) (rule init_side_measure)

theorem version_compare4_terminates_witness:
  "version_compare4_fuel (3 * strlen ''1.0'' + 3 * strlen ''1.1'' + 3) ''1.0'' ''1.1'' 0 0 = Some (- 1)"
proof -
  have "version_compare4 ''1.0'' ''1.1'' 0 0 = - 1" by code_simp
  then show ?thesis by (simp only: version_compare4_terminates)
qed

section \<open>Exchanging the two sides\<close>

lemma compare_units_swap: "compare_units u2 u1 = - compare_units u1 u2"
  by (simp add: compare_units_def)

lemma compare_loop_swap: "compare_loop u2 u1 is = - compare_loop u1 u2 is"
  by (induction "is") (simp_all add: Let_def compare_units_swap[of _ "u1 ! _"])

lemma iteration_swap:
  "iteration g f (s2, s1) =
     (case iteration f g (s1, s2) of Inl res \<Rightarrow> Inl (- res) | Inr st' \<Rightarrow> Inr (snd st', fst st'))"
proof -
  define r1 where "r1 = refill f s1"
  define r2 where "r2 = refill g s2"
  have m: "min (v_len r2) (v_len r1) = min (v_len r1) (v_len r2)" by (rule min.commute)
  have d: "(v_len r2 \<noteq> v_len r1) = (v_len r1 \<noteq> v_len r2)" by auto
  show ?thesis
    unfolding iteration_def Let_def fst_conv snd_conv r1_def[symmetric] r2_def[symmetric] m d
      compare_loop_swap[of "v_units r2" "v_units r1"]
    by (auto split: prod.splits)
qed

lemma loop_swap: "loop g f (snd st, fst st) = - loop f g st"
proof (induction f g st rule: loop.induct)
  case (1 f g st)
  show ?case
  proof (cases "iteration f g st")
    case (Inl res)
    then have "iteration g f (snd st, fst st) = Inl (- res)"
      using iteration_swap[of g f "snd st" "fst st"] by simp
    then show ?thesis using Inl by (simp add: loop.simps[of f g st] loop.simps[of g f "(snd st, fst st)"])
  next
    case (Inr st')
    then have "iteration g f (snd st, fst st) = Inr (snd st', fst st')"
      using iteration_swap[of g f "snd st" "fst st"] by simp
    then show ?thesis using Inr 1[OF Inr]
      by (simp add: loop.simps[of f g st] loop.simps[of g f "(snd st, fst st)"])
  qed
qed

lemma version_compare4_swap: "version_compare4 y x g f = - version_compare4 x y f g"
  using loop_swap[of g f "(init_side x f, init_side y g)"] by (simp add: version_compare4_def)

text \<open>
  C2: reflexivity. For every string \<open>x\<close> and every flag word \<open>f\<close>,
  \<open>version_compare4 x x f f = 0\<close>.
\<close>

theorem version_compare4_reflexive: "version_compare4 x x f f = 0"
  using version_compare4_swap[of x x f f] by simp

theorem version_compare4_reflexive_witness:
  "version_compare4 ''1.0a'' ''1.0a'' VERSIONFLAG_P_IS_PATCH VERSIONFLAG_P_IS_PATCH = 0"
  by (rule version_compare4_reflexive)

text \<open>
  C3: antisymmetry. For all strings \<open>x\<close>, \<open>y\<close> and flag words \<open>f\<close>, \<open>g\<close>, the sign of
  \<open>version_compare4 x y f g\<close> is the opposite of the sign of \<open>version_compare4 y x g f\<close>.
\<close>

theorem version_compare4_antisymmetric:
  "sgn (version_compare4 x y f g) = - sgn (version_compare4 y x g f)"
  by (simp add: version_compare4_swap[of y x g f])


theorem version_compare4_antisymmetric_witness:
  "sgn (version_compare4 ''1.0'' ''1.1'' VERSIONFLAG_LOWER_BOUND 0) =
     - sgn (version_compare4 ''1.1'' ''1.0'' 0 VERSIONFLAG_LOWER_BOUND)"
  by (rule version_compare4_antisymmetric)

section \<open>The number parser\<close>

lemma digit_value_range: "is_digit ch \<Longrightarrow> 0 \<le> digit_value ch \<and> digit_value ch \<le> 9"
  by (simp add: is_digit_def digit_value_def less_eq_char_def)

lemma guard_iff: "(x :: int) \<le> (m - d) div 10 \<longleftrightarrow> x * 10 + d \<le> m"
proof -
  define q where "q = (m - d) div 10"
  define r where "r = (m - d) mod 10"
  have "m - d = 10 * q + r" by (simp add: q_def r_def)
  moreover have "0 \<le> r" "r < 10" by (simp_all add: r_def)
  ultimately show ?thesis unfolding q_def[symmetric] by linarith
qed

lemma parse_number_loop_Cons:
  "parse_number_loop (ch # cur) n =
     (if is_digit ch then
        parse_number_loop cur
          (if n * 10 + digit_value ch \<le> VERSION_COMPONENT_MAX then n * 10 + digit_value ch
           else VERSION_COMPONENT_MAX)
      else (ch # cur, n))"
  by (simp add: is_digit_def digit_value_def guard_iff Let_def)

lemma foldl_saturated:
  "0 \<le> m \<Longrightarrow> m \<le> n \<Longrightarrow> \<forall>ch \<in> set ds. is_digit ch \<Longrightarrow>
     m \<le> foldl (\<lambda>n ch. n * 10 + digit_value ch) n ds"
proof (induction ds arbitrary: n)
  case Nil then show ?case by simp
next
  case (Cons ch ds)
  then have "0 \<le> digit_value ch" by (simp add: digit_value_range)
  with Cons.prems have "m \<le> n * 10 + digit_value ch" by simp
  with Cons show ?case by simp
qed

lemma VERSION_COMPONENT_MAX_pos: "0 \<le> VERSION_COMPONENT_MAX"
  by (simp add: VERSION_COMPONENT_MAX_def)

lemma parse_number_loop_value:
  "0 \<le> n \<Longrightarrow> n \<le> VERSION_COMPONENT_MAX \<Longrightarrow>
     snd (parse_number_loop s n) =
       min (foldl (\<lambda>n ch. n * 10 + digit_value ch) n (takeWhile is_digit s)) VERSION_COMPONENT_MAX"
proof (induction s arbitrary: n)
  case Nil then show ?case by simp
next
  case (Cons ch s)
  show ?case
  proof (cases "is_digit ch")
    case False
    then show ?thesis using Cons.prems by (simp add: parse_number_loop_Cons del: parse_number_loop.simps)
  next
    case True
    then have d: "0 \<le> digit_value ch" "digit_value ch \<le> 9" by (simp_all add: digit_value_range)
    show ?thesis
    proof (cases "n * 10 + digit_value ch \<le> VERSION_COMPONENT_MAX")
      case le: True
      have "0 \<le> n * 10 + digit_value ch" using d Cons.prems by simp
      then have "snd (parse_number_loop s (n * 10 + digit_value ch)) =
          min (foldl (\<lambda>n ch. n * 10 + digit_value ch) (n * 10 + digit_value ch) (takeWhile is_digit s)) VERSION_COMPONENT_MAX"
        using le by (rule Cons.IH)
      then show ?thesis using True le
        by (simp add: parse_number_loop_Cons del: parse_number_loop.simps)
    next
      case gt: False
      have "snd (parse_number_loop s VERSION_COMPONENT_MAX) =
          min (foldl (\<lambda>n ch. n * 10 + digit_value ch) VERSION_COMPONENT_MAX (takeWhile is_digit s)) VERSION_COMPONENT_MAX"
        by (rule Cons.IH) (simp_all add: VERSION_COMPONENT_MAX_pos)
      moreover have "VERSION_COMPONENT_MAX \<le> foldl (\<lambda>n ch. n * 10 + digit_value ch) VERSION_COMPONENT_MAX (takeWhile is_digit s)"
        by (rule foldl_saturated) (auto simp: VERSION_COMPONENT_MAX_pos dest: set_takeWhileD)
      moreover have "VERSION_COMPONENT_MAX \<le> foldl (\<lambda>n ch. n * 10 + digit_value ch) (n * 10 + digit_value ch) (takeWhile is_digit s)"
        using gt by (intro foldl_saturated) (auto simp: VERSION_COMPONENT_MAX_pos dest: set_takeWhileD)
      ultimately show ?thesis using True gt
        by (simp add: parse_number_loop_Cons del: parse_number_loop.simps)
    qed
  qed
qed

lemma dropWhile_length_eq: "length (dropWhile P s) = length s \<longleftrightarrow> takeWhile P s = []"
  by (metis add_cancel_right_left length_0_conv length_append takeWhile_dropWhile_id)

lemma decimal_value_nonneg: "\<forall>ch \<in> set ds. is_digit ch \<Longrightarrow> 0 \<le> decimal_value ds"
  unfolding decimal_value_def by (rule foldl_saturated) simp_all

lemma parse_number_eq:
  "parse_number s =
     (if takeWhile is_digit s = [] then (s, - 1)
      else (dropWhile is_digit s, min (decimal_value (takeWhile is_digit s)) VERSION_COMPONENT_MAX))"
proof -
  obtain cur n where eq: "parse_number_loop s 0 = (cur, n)" by (cases "parse_number_loop s 0")
  have cur: "cur = dropWhile is_digit s" using parse_number_loop_fst[of s 0] eq by simp
  have "n = min (decimal_value (takeWhile is_digit s)) VERSION_COMPONENT_MAX"
    using parse_number_loop_value[of 0 s] eq by (simp add: VERSION_COMPONENT_MAX_pos decimal_value_def)
  then show ?thesis using eq cur by (simp add: parse_number_def dropWhile_length_eq)
qed

lemma parse_number_range:
  "- 1 \<le> snd (parse_number s) \<and> snd (parse_number s) \<le> VERSION_COMPONENT_MAX"
proof -
  have "0 \<le> decimal_value (takeWhile is_digit s)"
    by (rule decimal_value_nonneg) (auto dest: set_takeWhileD)
  then show ?thesis using VERSION_COMPONENT_MAX_pos by (simp add: parse_number_eq)
qed

text \<open>
  C7: the contract of the number parser. \<open>parse_number\<close> consumes the longest prefix of
  decimal digits. On an empty digit run it leaves the cursor unchanged and returns -1.
  Otherwise it advances past the whole run and returns the value of the run, or
  \<open>VERSION_COMPONENT_MAX\<close> when the value exceeds it. The result always lies between -1 and
  \<open>VERSION_COMPONENT_MAX\<close>, and the multiply-add of the loop is executed only when its
  result does not exceed \<open>VERSION_COMPONENT_MAX\<close> (the guard, checked per digit, is
  equivalent to that): no step overflows.
\<close>

theorem parse_number_contract:
  "parse_number s =
     (if takeWhile is_digit s = [] then (s, - 1)
      else (dropWhile is_digit s, min (decimal_value (takeWhile is_digit s)) VERSION_COMPONENT_MAX))
   \<and> - 1 \<le> snd (parse_number s) \<and> snd (parse_number s) \<le> VERSION_COMPONENT_MAX
   \<and> parse_number_loop (ch # cur) n =
       (if is_digit ch then
          parse_number_loop cur
            (if n * 10 + digit_value ch \<le> VERSION_COMPONENT_MAX then n * 10 + digit_value ch
             else VERSION_COMPONENT_MAX)
        else (ch # cur, n))"
  using parse_number_eq[of s] parse_number_range[of s] parse_number_loop_Cons[of ch cur n]
  by (simp only: simp_thms)

theorem parse_number_contract_witness:
  "parse_number ''0123x'' = (''x'', 123) \<and>
   parse_number ''99999999999999999999x'' = (''x'', VERSION_COMPONENT_MAX) \<and>
   parse_number ''x1'' = (''x1'', - 1)"
proof -
  have 1: "takeWhile is_digit ''0123x'' = ''0123''" "dropWhile is_digit ''0123x'' = ''x''" 
    by (simp_all add: is_digit_def)
  have 2: "takeWhile is_digit ''99999999999999999999x'' = ''99999999999999999999''"
     "dropWhile is_digit ''99999999999999999999x'' = ''x''" 
    by (simp_all add: is_digit_def)
  have 3: "takeWhile is_digit ''x1'' = []" 
    by (simp_all add: is_digit_def)
  have 4: "decimal_value ''0123'' = 123" "decimal_value ''99999999999999999999'' = 99999999999999999999"
    by (simp_all add: decimal_value_def digit_value_def)
  show ?thesis
    by (simp add: parse_number_contract[of "''0123x''", THEN conjunct1]
         parse_number_contract[of "''99999999999999999999x''", THEN conjunct1]
         parse_number_contract[of "''x1''", THEN conjunct1] 1 2 3 4 is_digit_def VERSION_COMPONENT_MAX_def)
qed

section \<open>The alpha parser on a letter run\<close>

lemma not_letter_NUL: "\<not> is_letter NUL"
  by (simp add: is_letter_def NUL_def)

lemma dropWhile_run:
  "\<forall>ch \<in> set w. P ch \<Longrightarrow> \<not> P (peek rest) \<Longrightarrow> dropWhile P (w @ rest) = rest"
  by (simp add: dropWhile_append2 dropWhile_peek_id)

lemma mymemcasecmp_Cons:
  "mymemcasecmp (x # xs) (y # ys) (Suc n) = 0 \<longleftrightarrow> lowercase x = lowercase y \<and> mymemcasecmp xs ys n = 0"
  by (simp add: Let_def)

lemma mymemcasecmp_differ:
  "lowercase (peek x) \<noteq> lowercase (peek y) \<Longrightarrow> mymemcasecmp x y (Suc n) \<noteq> 0"
  by (simp add: Let_def)

lemma mymemcasecmp_append:
  "n \<le> length w \<Longrightarrow> mymemcasecmp (w @ rest) y n = mymemcasecmp w y n"
proof (induction n arbitrary: w y)
  case 0 then show ?case by simp
next
  case (Suc n)
  then obtain x xs where w: "w = x # xs" by (cases w) auto
  with Suc show ?case by (simp add: Let_def)
qed

text \<open>The outcome of \<open>parse_alpha\<close> on a letter run.\<close>

lemma parse_alpha_run:
  assumes "w \<noteq> []" "\<forall>ch \<in> set w. is_letter ch" "\<not> is_letter (peek rest)"
  shows "fst (parse_alpha (w @ rest) f) = rest"
    and "snd (snd (parse_alpha (w @ rest) f)) = int (lowercase (hd w))"
    and "fst (snd (parse_alpha (w @ rest) f)) = fst (snd (parse_alpha w f))"
proof -
  have d: "dropWhile is_letter (w @ rest) = rest" using assms(2,3) by (rule dropWhile_run)
  have d': "dropWhile is_letter w = []" using assms by simp
  obtain x xs where w: "w = x # xs" using assms by (cases w) auto
  show "fst (parse_alpha (w @ rest) f) = rest" by (simp add: parse_alpha_fst d)
  show "snd (snd (parse_alpha (w @ rest) f)) = int (lowercase (hd w))"
    using d w by (simp add: parse_alpha_def Let_def lowercase_def less_eq_char_def)
  have n: "length (w @ rest) - length rest = length w" "length w - length ([]::string) = length w" "length w \<noteq> 0"
    using w by simp_all
  have p: "peek (w @ rest) = peek w" using w by simp
  have m: "\<And>y k. (length w = k \<and> mymemcasecmp (w @ rest) y k = 0) = (length w = k \<and> mymemcasecmp w y k = 0)"
    by (auto simp: mymemcasecmp_append)
  have m': "\<And>y k. (k \<le> length w \<and> mymemcasecmp (w @ rest) y k = 0) = (k \<le> length w \<and> mymemcasecmp w y k = 0)"
    by (auto simp: mymemcasecmp_append)
  have m'': "\<And>y. (length w = 6 \<and> mymemcasecmp (w @ rest) y 2 = 0) = (length w = 6 \<and> mymemcasecmp w y 2 = 0)"
    by (auto simp: mymemcasecmp_append)
  show "fst (snd (parse_alpha (w @ rest) f)) = fst (snd (parse_alpha w f))"
    unfolding parse_alpha_def Let_def d d' n p
    by (simp only: m m' m'' n if_False fst_conv snd_conv)
qed

lemma parse_alpha_flags:
  assumes "w \<noteq> []" "\<forall>ch \<in> set w. is_letter ch"
  shows "fst (snd (parse_alpha w f)) =
     (if length w = 5 \<and> mymemcasecmp w ''alpha'' 5 = 0 then ALPHAFLAG_PRERELEASE
      else if length w = 4 \<and> mymemcasecmp w ''beta'' 4 = 0 then ALPHAFLAG_PRERELEASE
      else if length w = 2 \<and> mymemcasecmp w ''rc'' 2 = 0 then ALPHAFLAG_PRERELEASE
      else if length w \<ge> 3 \<and> mymemcasecmp w ''pre'' 3 = 0 then ALPHAFLAG_PRERELEASE
      else if length w \<ge> 4 \<and> mymemcasecmp w ''post'' 4 = 0 then ALPHAFLAG_POSTRELEASE
      else if length w = 5 \<and> mymemcasecmp w ''patch'' 5 = 0 then ALPHAFLAG_POSTRELEASE
      else if length w = 2 \<and> mymemcasecmp w ''pl'' 2 = 0 then ALPHAFLAG_POSTRELEASE
      else if length w = 6 \<and> mymemcasecmp w ''errata'' 2 = 0 then ALPHAFLAG_POSTRELEASE
      else if f AND VERSIONFLAG_P_IS_PATCH \<noteq> 0 \<and> length w = 1 \<and>
              (peek w = CHR ''p'' \<or> peek w = CHR ''P'') then ALPHAFLAG_POSTRELEASE
      else 0)"
proof -
  have d: "dropWhile is_letter w = []" using assms by simp
  have n: "length w - length ([]::string) = length w" "length w \<noteq> 0" using assms by simp_all
  show ?thesis unfolding parse_alpha_def Let_def d
    by (simp only: n if_False fst_conv snd_conv)
qed

lemma mymemcasecmp_differ':
  "0 < n \<Longrightarrow> lowercase (peek x) \<noteq> lowercase (peek y) \<Longrightarrow> mymemcasecmp x y n \<noteq> 0"
  by (cases n) (simp_all add: Let_def)

lemma mymemcasecmp_prefix:
  "mymemcasecmp x y n = 0 \<Longrightarrow> k \<le> n \<Longrightarrow> mymemcasecmp x y k = 0"
proof (induction k arbitrary: x y n)
  case 0 then show ?case by simp
next
  case (Suc k)
  then obtain m where n: "n = Suc m" by (cases n) auto
  with Suc.prems have "lowercase (peek x) = lowercase (peek y)" "mymemcasecmp (tl x) (tl y) m = 0"
    by (auto simp: Let_def split: if_splits)
  moreover have "k \<le> m" using Suc.prems n by simp
  ultimately show ?case using Suc.IH[of "tl x" "tl y" m] by (simp add: Let_def)
qed

lemma lowercase_letter: "lowercase x = lowercase y \<Longrightarrow> is_letter y \<Longrightarrow> is_letter x"
  by (auto simp: lowercase_def is_letter_def less_eq_char_def split: if_splits)

lemma mymemcasecmp_letters:
  "mymemcasecmp w y n = 0 \<Longrightarrow> length w = n \<Longrightarrow> length y = n \<Longrightarrow> \<forall>ch \<in> set y. is_letter ch \<Longrightarrow>
     \<forall>ch \<in> set w. is_letter ch"
proof (induction n arbitrary: w y)
  case 0 then show ?case by simp
next
  case (Suc n)
  obtain a w' where w: "w = a # w'" using Suc.prems by (cases w) auto
  obtain b y' where y: "y = b # y'" using Suc.prems by (cases y) auto
  from Suc.prems have l: "lowercase a = lowercase b" and r: "mymemcasecmp w' y' n = 0"
    unfolding w y by (auto simp: Let_def split: if_splits)
  have "is_letter a" using l Suc.prems(4) y by (auto intro: lowercase_letter)
  moreover have "\<forall>ch \<in> set w'. is_letter ch"
    using Suc.IH[OF r] Suc.prems w y by simp
  ultimately show ?case by (simp add: w)
qed

lemma lowercase_p: "lowercase CHR ''p'' = 112"
  by (simp add: lowercase_def)

lemma mymemcasecmp_first_e: "mymemcasecmp w (CHR ''e'' # y) 1 = 0 \<Longrightarrow> lowercase (peek w) = 101"
proof -
  have "lowercase CHR ''e'' = 101" by (simp add: lowercase_def)
  moreover assume "mymemcasecmp w (CHR ''e'' # y) 1 = 0"
  ultimately show ?thesis by (simp add: Let_def split: if_splits)
qed

lemma errata_exact:
  assumes "length w = 6" "mymemcasecmp w ''errata'' 6 = 0" "\<not> is_letter (peek rest)"
  shows "fst (snd (parse_alpha (w @ rest) f)) = ALPHAFLAG_POSTRELEASE"
proof -
  have ne: "w \<noteq> []" using assms by auto
  have "length ''errata'' = 6" by simp
  moreover have "\<forall>ch \<in> set ''errata''. is_letter ch" by (simp add: is_letter_def)
  ultimately have letters: "\<forall>ch \<in> set w. is_letter ch"
    by (rule mymemcasecmp_letters[OF assms(2) assms(1)])
  have "mymemcasecmp w ''errata'' 1 = 0" using assms(2) by (rule mymemcasecmp_prefix) simp
  then have e: "lowercase (peek w) = 101"
    by (rule mymemcasecmp_first_e)
  have pre: "mymemcasecmp w ''pre'' 3 \<noteq> 0"
    by (rule mymemcasecmp_differ') (simp_all add: e lowercase_p)
  have post: "mymemcasecmp w ''post'' 4 \<noteq> 0"
    by (rule mymemcasecmp_differ') (simp_all add: e lowercase_p)
  have er: "mymemcasecmp w ''errata'' 2 = 0" using assms(2) by (rule mymemcasecmp_prefix) simp
  have "fst (snd (parse_alpha w f)) = ALPHAFLAG_POSTRELEASE"
    by (simp add: parse_alpha_flags[OF ne letters] assms(1) pre post er)
  then show ?thesis using parse_alpha_run(3)[OF ne letters assms(3)] by simp
qed

lemma err_longer:
  assumes "\<forall>ch \<in> set w. is_letter ch" "6 < length w" "mymemcasecmp w ''err'' 3 = 0" "\<not> is_letter (peek rest)"
  shows "fst (snd (parse_alpha (w @ rest) f)) = 0"
proof -
  have ne: "w \<noteq> []" using assms by auto
  have "mymemcasecmp w ''err'' 1 = 0" using assms(3) by (rule mymemcasecmp_prefix) simp
  then have e: "lowercase (peek w) = 101"
    by (rule mymemcasecmp_first_e)
  have pre: "mymemcasecmp w ''pre'' 3 \<noteq> 0"
    by (rule mymemcasecmp_differ') (simp_all add: e lowercase_p)
  have post: "mymemcasecmp w ''post'' 4 \<noteq> 0"
    by (rule mymemcasecmp_differ') (simp_all add: e lowercase_p)
  have "fst (snd (parse_alpha w f)) = 0"
    using assms(2) by (simp add: parse_alpha_flags[OF ne assms(1)] pre post)
  then show ?thesis using parse_alpha_run(3)[OF ne assms(1) assms(4)] by simp
qed

lemma single_p:
  assumes "ch = CHR ''p'' \<or> ch = CHR ''P''" "\<not> is_letter (peek rest)"
  shows "fst (snd (parse_alpha (ch # rest) f)) =
           (if f AND VERSIONFLAG_P_IS_PATCH \<noteq> 0 then ALPHAFLAG_POSTRELEASE else 0)"
proof -
  have letters: "\<forall>x \<in> set [ch]. is_letter x" using assms(1) by (auto simp: is_letter_def)
  have "fst (snd (parse_alpha [ch] f)) = (if f AND VERSIONFLAG_P_IS_PATCH \<noteq> 0 then ALPHAFLAG_POSTRELEASE else 0)"
    using assms(1) by (simp add: parse_alpha_flags[OF _ letters])
  then show ?thesis using parse_alpha_run(3)[OF _ letters assms(2), of f] by simp
qed

lemma parse_number_digit:
  assumes "is_digit (peek s)"
  shows "fst (parse_number s) = dropWhile is_digit s" and "0 \<le> snd (parse_number s)"
proof -
  obtain x xs where s: "s = x # xs" using assms by (cases s) (auto simp: is_digit_def NUL_def)
  then have t: "takeWhile is_digit s \<noteq> []" using assms by simp
  have "0 \<le> decimal_value (takeWhile is_digit s)"
    by (rule decimal_value_nonneg) (auto dest: set_takeWhileD)
  then show "0 \<le> snd (parse_number s)" using t VERSION_COMPONENT_MAX_pos by (simp add: parse_number_eq)
  show "fst (parse_number s) = dropWhile is_digit s" by (rule parse_number_fst)
qed

lemma parse_alpha_absent:
  "snd (snd (parse_alpha s f)) = - 1 \<Longrightarrow> fst (snd (parse_alpha s f)) = 0"
  by (auto simp: parse_alpha_def Let_def split: if_splits)

lemma unglue:
  assumes "is_digit (peek s)" "length target = 2" "f AND VERSIONFLAG_ANY_IS_PATCH = 0"
    and "fst (snd (parse_alpha (dropWhile is_digit s) f)) = ALPHAFLAG_PRERELEASE"
  shows "snd (get_next_version_component s target f) =
    ([mk_unit (snd (parse_number s)) (- 1) (- 1),
      mk_unit (- 1) (snd (snd (parse_alpha (dropWhile is_digit s) f)))
        (snd (parse_number (dropWhile is_letter (dropWhile is_digit s))))], 2)"
proof -
  have v: "is_version_char (peek s)" using assms(1) by (rule digit_version_char)
  then have sep: "dropWhile is_separator s = s" by (simp add: dropWhile_peek_id is_separator_def)
  have nn: "peek s \<noteq> NUL" using v NUL_not_version_char by auto
  obtain number where p1: "parse_number s = (dropWhile is_digit s, number)"
    using parse_number_fst[of s] by (cases "parse_number s") simp
  have number: "number \<noteq> - 1" using parse_number_digit(2)[OF assms(1)] p1 by simp
  obtain alpha where p2: "parse_alpha (dropWhile is_digit s) f =
      (dropWhile is_letter (dropWhile is_digit s), ALPHAFLAG_PRERELEASE, alpha)"
    using parse_alpha_fst[of "dropWhile is_digit s" f] assms(4)
    by (cases "parse_alpha (dropWhile is_digit s) f") simp
  have alpha: "alpha \<noteq> - 1"
    using parse_alpha_absent[of "dropWhile is_digit s" f] p2 by (auto simp: ALPHAFLAG_PRERELEASE_def)
  obtain str3 extranumber where p3: "parse_number (dropWhile is_letter (dropWhile is_digit s)) = (str3, extranumber)"
    by (cases "parse_number (dropWhile is_letter (dropWhile is_digit s))")
  obtain u0 u1 where t: "target = [u0, u1]" using assms(2)
    by (cases target; cases "tl target") auto
  show ?thesis
    unfolding get_next_version_component_def Let_def sep p1 p2 p3 prod.case t
    using nn number alpha assms(3)
    by (simp add: ALPHAFLAG_PRERELEASE_def ALPHAFLAG_POSTRELEASE_def)
qed

section \<open>Claims about the alpha parser and the extractor\<close>

text \<open>
  C1, as amended: a letter run that is, up to ASCII case, exactly the word "errata" is
  classified postrelease, whatever the flags. A longer letter run that begins with "err"
  (such as "erratas" or "erratum") is not: the alpha parser classifies it neutral.
\<close>

theorem errata_postrelease:
  "(length w = 6 \<and> mymemcasecmp w ''errata'' 6 = 0 \<and> \<not> is_letter (peek rest) \<longrightarrow>
      fst (snd (parse_alpha (w @ rest) f)) = ALPHAFLAG_POSTRELEASE) \<and>
   (list_all is_letter w' \<and> 6 < length w' \<and> mymemcasecmp w' ''err'' 3 = 0 \<and> \<not> is_letter (peek rest') \<longrightarrow>
      fst (snd (parse_alpha (w' @ rest') f')) = 0)"
proof (intro conjI impI)
  assume "length w = 6 \<and> mymemcasecmp w ''errata'' 6 = 0 \<and> \<not> is_letter (peek rest)"
  then show "fst (snd (parse_alpha (w @ rest) f)) = ALPHAFLAG_POSTRELEASE"
    using errata_exact[of w rest f] by blast
next
  assume a: "list_all is_letter w' \<and> 6 < length w' \<and> mymemcasecmp w' ''err'' 3 = 0 \<and> \<not> is_letter (peek rest')"
  then have "list_all is_letter w'" by (rule conjunct1)
  then have "\<forall>ch \<in> set w'. is_letter ch" by (simp only: list_all_iff)
  then show "fst (snd (parse_alpha (w' @ rest') f')) = 0"
    using a err_longer[of w' rest' f'] by blast
qed

theorem errata_postrelease_witness:
  "fst (snd (parse_alpha (''ERRATA'' @ ''.1'') 0)) = ALPHAFLAG_POSTRELEASE \<and>
   fst (snd (parse_alpha (''erratum'' @ []) VERSIONFLAG_P_IS_PATCH)) = 0"
proof -
  have h1: "length ''ERRATA'' = 6 \<and> mymemcasecmp ''ERRATA'' ''errata'' 6 = 0 \<and> \<not> is_letter (peek ''.1'')"
    by code_simp
  have h2: "list_all is_letter ''erratum'' \<and> 6 < length ''erratum'' \<and>
      mymemcasecmp ''erratum'' ''err'' 3 = 0 \<and> \<not> is_letter (peek [])"
    by code_simp
  note t = errata_postrelease[of "''ERRATA''" "''.1''" 0 "''erratum''" "[]" VERSIONFLAG_P_IS_PATCH]
  show ?thesis
    using mp[OF t[THEN conjunct1] h1] mp[OF t[THEN conjunct2] h2] by (rule conjI)
qed

text \<open>
  The claim as stated fails: "erratas" is a letter run of length 7 that begins with "err",
  and the alpha parser does not classify it postrelease, while it does so classify "errata".
\<close>

theorem errata_counterexample:
  "list_all is_letter ''erratas'' \<and> 6 \<le> length ''erratas'' \<and> mymemcasecmp ''erratas'' ''err'' 3 = 0 \<and>
   fst (snd (parse_alpha ''erratas'' 0)) \<noteq> ALPHAFLAG_POSTRELEASE \<and>
   fst (snd (parse_alpha ''errata'' 0)) = ALPHAFLAG_POSTRELEASE"
  by code_simp

text \<open>
  C8: a letter run that is the single letter \<open>p\<close> or \<open>P\<close> is classified postrelease by the
  alpha parser exactly when the P_IS_PATCH flag is set in the flags of its side. So
  \<open>version_compare4 "1.0p1" "1.0"\<close> is positive with P_IS_PATCH on the left and negative
  with no flags.
\<close>

theorem p_is_patch:
  "((ch = CHR ''p'' \<or> ch = CHR ''P'') \<and> \<not> is_letter (peek rest) \<longrightarrow>
      (fst (snd (parse_alpha (ch # rest) f)) = ALPHAFLAG_POSTRELEASE) = (f AND VERSIONFLAG_P_IS_PATCH \<noteq> 0)) \<and>
   version_compare4 ''1.0p1'' ''1.0'' VERSIONFLAG_P_IS_PATCH 0 > 0 \<and>
   version_compare4 ''1.0p1'' ''1.0'' 0 0 < 0"
proof -
  have "version_compare4 ''1.0p1'' ''1.0'' VERSIONFLAG_P_IS_PATCH 0 = 1" by code_simp
  moreover have "version_compare4 ''1.0p1'' ''1.0'' 0 0 = - 1" by code_simp
  ultimately show ?thesis
    using single_p[of ch rest f] by (simp add: ALPHAFLAG_POSTRELEASE_def)
qed

theorem p_is_patch_witness:
  "fst (snd (parse_alpha (CHR ''P'' # ''1'') VERSIONFLAG_P_IS_PATCH)) = ALPHAFLAG_POSTRELEASE \<and>
   fst (snd (parse_alpha (CHR ''p'' # ''1'') VERSIONFLAG_ANY_IS_PATCH)) \<noteq> ALPHAFLAG_POSTRELEASE"
proof -
  have h: "\<not> is_letter (peek ''1'')" by code_simp
  have f1: "VERSIONFLAG_P_IS_PATCH AND VERSIONFLAG_P_IS_PATCH \<noteq> 0" by code_simp
  have f2: "\<not> VERSIONFLAG_ANY_IS_PATCH AND VERSIONFLAG_P_IS_PATCH \<noteq> 0" by code_simp
  show ?thesis
    using p_is_patch[of "CHR ''P''" "''1''" VERSIONFLAG_P_IS_PATCH, THEN conjunct1]
      p_is_patch[of "CHR ''p''" "''1''" VERSIONFLAG_ANY_IS_PATCH, THEN conjunct1] h f1 f2
    by blast
qed

text \<open>
  C5: prerelease unglue. When the cursor is at a number that is followed by an alpha
  classified prerelease (and ANY_IS_PATCH is not set), the extractor emits two units: the
  pure-number unit \<open>(N, -1, -1)\<close> and a companion unit \<open>(-1, L, M)\<close> with the letter \<open>L\<close>
  and the trailing number \<open>M\<close> (or -1). The companion compares below the unit
  \<open>(0, -1, -1)\<close> that the other side produces at its end, and
  \<open>version_compare2 "1.0alpha1" "1.0"\<close> is negative.
\<close>

theorem prerelease_unglue:
  "(is_digit (peek s) \<and> length target = 2 \<and> f AND VERSIONFLAG_ANY_IS_PATCH = 0 \<and>
    fst (snd (parse_alpha (dropWhile is_digit s) f)) = ALPHAFLAG_PRERELEASE \<longrightarrow>
      0 \<le> snd (parse_number s) \<and>
      snd (get_next_version_component s target f) =
        ([mk_unit (snd (parse_number s)) (- 1) (- 1),
          mk_unit (- 1) (snd (snd (parse_alpha (dropWhile is_digit s) f)))
            (snd (parse_number (dropWhile is_letter (dropWhile is_digit s))))], 2) \<and>
      compare_units
        (mk_unit (- 1) (snd (snd (parse_alpha (dropWhile is_digit s) f)))
            (snd (parse_number (dropWhile is_letter (dropWhile is_digit s)))))
        (mk_unit 0 (- 1) (- 1)) < 0) \<and>
   version_compare2 ''1.0alpha1'' ''1.0'' < 0"
proof -
  have "version_compare2 ''1.0alpha1'' ''1.0'' = - 1" by code_simp
  moreover have "compare_units (mk_unit (- 1) x y) (mk_unit 0 (- 1) (- 1)) < 0" for x y
    by (simp add: compare_units_def mk_unit_def)
  ultimately show ?thesis
    using unglue[of s target f] parse_number_digit(2)[of s] by simp
qed

theorem prerelease_unglue_witness:
  "snd (get_next_version_component ''0alpha1'' [indeterminate, indeterminate] 0) =
     ([mk_unit 0 (- 1) (- 1), mk_unit (- 1) 97 1], 2)"
proof -
  have h: "is_digit (peek ''0alpha1'') \<and> length [indeterminate, indeterminate] = 2 \<and>
      (0 :: flags) AND VERSIONFLAG_ANY_IS_PATCH = 0 \<and>
      fst (snd (parse_alpha (dropWhile is_digit ''0alpha1'') 0)) = ALPHAFLAG_PRERELEASE"
    by code_simp
  have e: "snd (parse_number ''0alpha1'') = 0"
    "snd (snd (parse_alpha (dropWhile is_digit ''0alpha1'') 0)) = 97"
    "snd (parse_number (dropWhile is_letter (dropWhile is_digit ''0alpha1''))) = 1"
    by code_simp+
  show ?thesis
    using mp[OF prerelease_unglue[of "''0alpha1''" "[indeterminate, indeterminate]" 0, THEN conjunct1] h]
    unfolding e by (rule conjunct2[THEN conjunct1])
qed

section \<open>Bounds\<close>

lemma parse_alpha_flags_irrelevant:
  assumes "f AND VERSIONFLAG_P_IS_PATCH = 0"
  shows "parse_alpha s f = parse_alpha s 0"
proof -
  have "(0 :: flags) AND VERSIONFLAG_P_IS_PATCH = 0" by simp
  then show ?thesis unfolding parse_alpha_def by (simp only: assms)
qed

lemma get_next_version_component_flags_irrelevant:
  assumes "peek (dropWhile is_separator s) \<noteq> NUL"
    and "f AND VERSIONFLAG_P_IS_PATCH = 0" "f AND VERSIONFLAG_ANY_IS_PATCH = 0"
  shows "get_next_version_component s t f = get_next_version_component s t 0"
proof -
  have z: "(0 :: flags) AND VERSIONFLAG_ANY_IS_PATCH = 0" by simp
  show ?thesis
    unfolding get_next_version_component_def Let_def parse_alpha_flags_irrelevant[OF assms(2)]
    by (simp only: assms(1,3) z if_False)
qed

lemma get_next_version_component_filler:
  assumes "peek (dropWhile is_separator s) = NUL"
  shows "get_next_version_component s t f =
    (dropWhile is_separator s, t[0 := filler f], 1)"
  using assms by (simp add: get_next_version_component_def filler_def)

lemma compare_loop_same: "compare_loop u u is = 0"
  by (induction "is") (simp_all add: compare_units_def)

lemma bound_iteration:
  assumes f: "f AND VERSIONFLAG_P_IS_PATCH = 0" "f AND VERSIONFLAG_ANY_IS_PATCH = 0"
    and r: "compare_units (filler f) (filler 0) = r" "r \<noteq> 0"
    and inv: "in_step s1 s2"
  shows "iteration f 0 (s1, s2) = Inl r \<or>
         (\<exists>t1 t2. iteration f 0 (s1, s2) = Inr (t1, t2) \<and> in_step t1 t2)"
proof (cases "peek (dropWhile is_separator (v s1)) = NUL")
  case True
  have l: "0 < length (v_units s2)" "v s2 = v s1" "v_units s1 = v_units s2" "v_len s1 = 0" "v_len s2 = 0"
    using inv by (auto simp: in_step_def)
  have r1: "refill f s1 = s1\<lparr>v := dropWhile is_separator (v s1), v_units := (v_units s2)[0 := filler f], v_len := 1\<rparr>"
    using True l by (simp add: refill_def get_next_version_component_filler)
  have r2: "refill 0 s2 = s2\<lparr>v := dropWhile is_separator (v s1), v_units := (v_units s2)[0 := filler 0], v_len := 1\<rparr>"
    using True l by (simp add: refill_def get_next_version_component_filler)
  have "iteration f 0 (s1, s2) = Inl r"
    unfolding iteration_def Let_def fst_conv snd_conv r1 r2
    using r l(1) by simp
  then show ?thesis by simp
next
  case False
  have l: "v s2 = v s1" "v_units s2 = v_units s1" "v_len s1 = 0" "v_len s2 = 0" "length (v_units s1) = 2"
    using inv by (auto simp: in_step_def)
  obtain str tg n where g: "get_next_version_component (v s1) (v_units s1) f = (str, tg, n)"
    by (cases "get_next_version_component (v s1) (v_units s1) f")
  then have g0: "get_next_version_component (v s1) (v_units s1) 0 = (str, tg, n)"
    using get_next_version_component_flags_irrelevant[OF False f] by simp
  have tg: "length tg = 2"
    using get_next_version_component_length[of "v s1" "v_units s1" f] g l by simp
  have "peek (v s1) \<noteq> NUL"
  proof
    assume "peek (v s1) = NUL"
    then have "dropWhile is_separator (v s1) = v s1" by (simp add: dropWhile_peek_id separator_NUL)
    with False \<open>peek (v s1) = NUL\<close> show False by simp
  qed
  then have e: "v_extra_components s1 \<ge> 1" using inv by (simp add: in_step_def)
  have r1: "refill f s1 = s1\<lparr>v := str, v_units := tg, v_len := n\<rparr>"
    using g l by (simp add: refill_def)
  have r2: "refill 0 s2 = s2\<lparr>v := str, v_units := tg, v_len := n\<rparr>"
    using g0 l by (simp add: refill_def)
  have a1: "advance False n (s1\<lparr>v := str, v_units := tg, v_len := n\<rparr>) =
      (if peek str = NUL
       then (s1\<lparr>v := str, v_units := tg, v_len := 0, v_extra_components := v_extra_components s1 - 1\<rparr>, False)
       else (s1\<lparr>v := str, v_units := tg, v_len := 0\<rparr>, False))"
    using e by (simp add: advance_def Let_def)
  obtain t2 e2 where a2: "advance False n (s2\<lparr>v := str, v_units := tg, v_len := n\<rparr>) = (t2, e2)"
    by (cases "advance False n (s2\<lparr>v := str, v_units := tg, v_len := n\<rparr>)")
  then have t2: "v t2 = str" "v_units t2 = tg" "v_len t2 = 0"
    by (auto simp: advance_def Let_def split: if_splits)
  define t1 where "t1 = (if peek str = NUL
       then s1\<lparr>v := str, v_units := tg, v_len := 0, v_extra_components := v_extra_components s1 - 1\<rparr>
       else s1\<lparr>v := str, v_units := tg, v_len := 0\<rparr>)"
  have "iteration f 0 (s1, s2) = Inr (t1, t2)"
    unfolding iteration_def Let_def fst_conv snd_conv r1 r2
    by (simp add: compare_loop_same a1 a2 t1_def)
  moreover have "in_step t1 t2" using t2 tg e by (simp add: in_step_def t1_def)
  ultimately show ?thesis by blast
qed

lemma bound_loop:
  assumes f: "f AND VERSIONFLAG_P_IS_PATCH = 0" "f AND VERSIONFLAG_ANY_IS_PATCH = 0"
    and r: "compare_units (filler f) (filler 0) = r" "r \<noteq> 0"
  shows "in_step (fst st) (snd st) \<Longrightarrow> loop f 0 st = r"
proof (induction "loop_measure st" arbitrary: st rule: less_induct)
  case less
  obtain s1 s2 where st: "st = (s1, s2)" by (cases st)
  with less.prems have "in_step s1 s2" by simp
  from bound_iteration[OF f r this]
  consider (ret) "iteration f 0 st = Inl r"
    | (cont) t1 t2 where "iteration f 0 st = Inr (t1, t2)" "in_step t1 t2"
    unfolding st by blast
  then show ?case
  proof cases
    case ret
    then show ?thesis by (simp add: loop.simps[of f 0 st])
  next
    case cont
    from cont(1) have "loop_measure (t1, t2) < loop_measure st" by (rule iteration_progress)
    then have "loop f 0 (t1, t2) = r" using cont(2) by (intro less.hyps) simp_all
    then show ?thesis using cont(1) by (simp add: loop.simps[of f 0 st])
  qed
qed

lemma init_in_step:
  "f AND (VERSIONFLAG_LOWER_BOUND OR VERSIONFLAG_UPPER_BOUND) \<noteq> 0 \<Longrightarrow> in_step (init_side x f) (init_side x 0)"
  by (simp add: in_step_def init_side_def)

lemma lower_bound_below: "version_compare4 x x VERSIONFLAG_LOWER_BOUND 0 = - 1"
  unfolding version_compare4_def
proof (rule bound_loop)
  show "VERSIONFLAG_LOWER_BOUND AND VERSIONFLAG_P_IS_PATCH = 0"
    by (simp add: VERSIONFLAG_LOWER_BOUND_def VERSIONFLAG_P_IS_PATCH_def)
  show "VERSIONFLAG_LOWER_BOUND AND VERSIONFLAG_ANY_IS_PATCH = 0"
    by (simp add: VERSIONFLAG_LOWER_BOUND_def VERSIONFLAG_ANY_IS_PATCH_def)
  show "compare_units (filler VERSIONFLAG_LOWER_BOUND) (filler 0) = - 1"
    by (simp add: filler_def compare_units_def mk_unit_def VERSIONFLAG_LOWER_BOUND_def)
  show "(- 1 :: int) \<noteq> 0" by simp
  show "in_step (fst (init_side x VERSIONFLAG_LOWER_BOUND, init_side x 0))
          (snd (init_side x VERSIONFLAG_LOWER_BOUND, init_side x 0))"
    by (simp add: init_in_step VERSIONFLAG_LOWER_BOUND_def VERSIONFLAG_UPPER_BOUND_def)
qed

lemma upper_bound_above: "version_compare4 x x VERSIONFLAG_UPPER_BOUND 0 = 1"
  unfolding version_compare4_def
proof (rule bound_loop)
  show "VERSIONFLAG_UPPER_BOUND AND VERSIONFLAG_P_IS_PATCH = 0"
    by (simp add: VERSIONFLAG_UPPER_BOUND_def VERSIONFLAG_P_IS_PATCH_def)
  show "VERSIONFLAG_UPPER_BOUND AND VERSIONFLAG_ANY_IS_PATCH = 0"
    by (simp add: VERSIONFLAG_UPPER_BOUND_def VERSIONFLAG_ANY_IS_PATCH_def)
  show "compare_units (filler VERSIONFLAG_UPPER_BOUND) (filler 0) = 1"
    by (simp add: filler_def compare_units_def mk_unit_def VERSIONFLAG_UPPER_BOUND_def
        VERSIONFLAG_LOWER_BOUND_def VERSION_COMPONENT_MAX_def)
  show "(1 :: int) \<noteq> 0" by simp
  show "in_step (fst (init_side x VERSIONFLAG_UPPER_BOUND, init_side x 0))
          (snd (init_side x VERSIONFLAG_UPPER_BOUND, init_side x 0))"
    by (simp add: init_in_step VERSIONFLAG_LOWER_BOUND_def VERSIONFLAG_UPPER_BOUND_def)
qed

text \<open>
  C4: bound monotonicity. For every string \<open>x\<close>, \<open>x\<close> with LOWER_BOUND compares less than or
  equal to \<open>x\<close> without flags and \<open>x\<close> with UPPER_BOUND greater than or equal, and both
  strictly when \<open>x\<close> contains a version character before its terminator. (The results
  are in fact -1 and 1 for every \<open>x\<close>.)
\<close>

theorem bound_monotonicity:
  "version_compare4 x x VERSIONFLAG_LOWER_BOUND 0 \<le> 0 \<and>
   version_compare4 x x VERSIONFLAG_UPPER_BOUND 0 \<ge> 0 \<and>
   ((\<exists>ch \<in> set (takeWhile (\<lambda>ch. ch \<noteq> NUL) x). is_version_char ch) \<longrightarrow>
      version_compare4 x x VERSIONFLAG_LOWER_BOUND 0 < 0 \<and>
      version_compare4 x x VERSIONFLAG_UPPER_BOUND 0 > 0) \<and>
   version_compare4 x x VERSIONFLAG_LOWER_BOUND 0 = - 1 \<and>
   version_compare4 x x VERSIONFLAG_UPPER_BOUND 0 = 1"
  by (simp add: lower_bound_below upper_bound_above)

theorem bound_monotonicity_witness:
  "(\<exists>ch \<in> set (takeWhile (\<lambda>ch. ch \<noteq> NUL) ''1.0''). is_version_char ch) \<and>
   version_compare4 ''1.0'' ''1.0'' VERSIONFLAG_LOWER_BOUND 0 < 0 \<and>
   version_compare4 ''1.0'' ''1.0'' VERSIONFLAG_UPPER_BOUND 0 > 0"
proof -
  have h: "\<exists>ch \<in> set (takeWhile (\<lambda>ch. ch \<noteq> NUL) ''1.0''). is_version_char ch"
    by code_simp
  show ?thesis
    using h mp[OF bound_monotonicity[of "''1.0''", THEN conjunct2, THEN conjunct2, THEN conjunct1] h]
    by (rule conjI)
qed

section \<open>The comparison as a comparison of unit streams\<close>

termination components
proof (relation "measure (\<lambda>(f, s). strlen s)")
  show "wf (measure (\<lambda>(f, s). strlen s))" by (rule wf_measure)
next
  fix f :: flags and s :: string
  assume "peek s \<noteq> NUL"
  then have "strlen (fst (get_next_version_component s [indeterminate, indeterminate] f)) < strlen s"
    by (rule get_next_version_component_progress)
  then show "((f, fst (get_next_version_component s [indeterminate, indeterminate] f)), (f, s))
      \<in> measure (\<lambda>(f, s). strlen s)" by simp
qed

declare components.simps [simp del]

lemma compare_units_refl: "compare_units u u = 0"
  by (simp add: compare_units_def)

lemma compare_units_eq: "compare_units x y = 0 \<longleftrightarrow> x = y"
  by (cases x; cases y) (auto simp: compare_units_def)

lemma compare_units_range: "compare_units x y = - 1 \<or> compare_units x y = 0 \<or> compare_units x y = 1"
  by (simp add: compare_units_def)

lemma compare_units_trans:
  "compare_units x y \<le> 0 \<Longrightarrow> compare_units y z \<le> 0 \<Longrightarrow> compare_units x z \<le> 0"
  by (auto simp: compare_units_def split: if_splits)

lemma compare_units_trans_strict:
  "compare_units x y \<le> 0 \<Longrightarrow> compare_units y z \<le> 0 \<Longrightarrow> compare_units x z = 0 \<Longrightarrow>
     compare_units x y = 0 \<and> compare_units y z = 0"
  by (auto simp: compare_units_def split: if_splits)

lemma padded_compare_replicate: "padded_compare fl (replicate k fl) ys = padded_compare fl [] ys"
proof (induction ys arbitrary: k)
  case Nil
  show ?case by (induction k) (simp_all add: compare_units_refl)
next
  case (Cons y ys)
  show ?case by (cases k) (simp_all add: Cons.IH)
qed

lemma padded_compare_pad: "padded_compare fl (xs @ replicate k fl) ys = padded_compare fl xs ys"
proof (induction xs arbitrary: ys)
  case Nil
  show ?case by (simp add: padded_compare_replicate)
next
  case (Cons x xs)
  show ?case by (cases ys) (simp_all add: Cons.IH)
qed

lemma padded_compare_swap: "padded_compare fl ys xs = - padded_compare fl xs ys"
proof (induction fl xs ys rule: padded_compare.induct)
  case (1 fl)
  show ?case by simp
next
  case (2 fl x xs)
  then show ?case by (simp add: compare_units_swap[of fl x])
next
  case (3 fl y ys)
  then show ?case by (simp add: compare_units_swap[of y fl])
next
  case (4 fl x xs y ys)
  then show ?case by (simp add: compare_units_swap[of y x])
qed

lemma padded_compare_pad_right: "padded_compare fl xs (ys @ replicate k fl) = padded_compare fl xs ys"
  using padded_compare_pad[of fl ys k xs]
  by (simp add: padded_compare_swap[of fl "ys @ replicate k fl" xs] padded_compare_swap[of fl ys xs])

lemma padded_compare_trans_eq_length:
  "length xs = length ys \<Longrightarrow> length ys = length zs \<Longrightarrow>
   padded_compare fl xs ys \<le> 0 \<Longrightarrow> padded_compare fl ys zs \<le> 0 \<Longrightarrow> padded_compare fl xs zs \<le> 0"
proof (induction xs ys zs rule: list_induct3)
  case Nil
  show ?case by simp
next
  case (Cons x xs y ys z zs)
  have xy: "compare_units x y \<le> 0" using Cons.prems(1) compare_units_range[of x y]
    by (auto split: if_splits)
  have yz: "compare_units y z \<le> 0" using Cons.prems(2) compare_units_range[of y z]
    by (auto split: if_splits)
  have xz: "compare_units x z \<le> 0" using xy yz by (rule compare_units_trans)
  show ?case
  proof (cases "compare_units x z = 0")
    case False
    then show ?thesis using xz by simp
  next
    case True
    with xy yz have "compare_units x y = 0 \<and> compare_units y z = 0"
      by (intro compare_units_trans_strict)
    then show ?thesis using Cons.IH Cons.prems True by simp
  qed
qed

lemma padded_compare_trans:
  assumes "padded_compare fl xs ys \<le> 0" "padded_compare fl ys zs \<le> 0"
  shows "padded_compare fl xs zs \<le> 0"
proof -
  define n where "n = max (length xs) (max (length ys) (length zs))"
  define xs' where "xs' = xs @ replicate (n - length xs) fl"
  define ys' where "ys' = ys @ replicate (n - length ys) fl"
  define zs' where "zs' = zs @ replicate (n - length zs) fl"
  have l: "length xs' = length ys'" "length ys' = length zs'"
    by (simp_all add: xs'_def ys'_def zs'_def n_def)
  have "padded_compare fl xs' ys' \<le> 0" "padded_compare fl ys' zs' \<le> 0"
    using assms by (simp_all add: xs'_def ys'_def zs'_def padded_compare_pad padded_compare_pad_right)
  with l have "padded_compare fl xs' zs' \<le> 0" by (rule padded_compare_trans_eq_length)
  then show ?thesis by (simp add: xs'_def zs'_def padded_compare_pad padded_compare_pad_right)
qed

lemma get_next_version_component_emitted:
  assumes "length t = 2"
  shows "take (snd (snd (get_next_version_component s t f))) (fst (snd (get_next_version_component s t f)))
           = emitted f s"
proof -
  obtain x y where t: "t = [x, y]" using assms by (cases t; cases "tl t") auto
  show ?thesis unfolding emitted_def t
    by (simp add: get_next_version_component_def Let_def split: prod.splits)
qed

lemma get_next_version_component_cursor_indep:
  "fst (get_next_version_component s t f) = fst (get_next_version_component s t' f)"
  by (simp add: get_next_version_component_cursor)

lemma emitted_nonempty: "emitted f s \<noteq> []"
  unfolding emitted_def
  by (simp add: get_next_version_component_def Let_def indeterminate_def split: prod.splits)

lemma emitted_at_end: "peek s = NUL \<Longrightarrow> emitted f s = [filler f]"
  unfolding emitted_def
  by (simp add: get_next_version_component_filler dropWhile_peek_id separator_NUL)

lemma components_at_end: "peek s = NUL \<Longrightarrow> components f s = []"
  by (simp add: components.simps[of f s])

lemma refill_pending:
  assumes "length (v_units s) = 2" "v_len s \<le> 2"
  shows "length (v_units (refill f s)) = 2" "1 \<le> v_len (refill f s)" "v_len (refill f s) \<le> 2"
    "pending f (refill f s) = (if pending f s = [] then [filler f] else pending f s)"
proof -
  show "length (v_units (refill f s)) = 2"
    using assms get_next_version_component_length[of "v s" "v_units s" f]
    by (auto simp: refill_def split: prod.splits)
  show "1 \<le> v_len (refill f s)" using refill_len[of f s] by simp
  show "v_len (refill f s) \<le> 2" using refill_len[of f s] assms by simp
  show "pending f (refill f s) = (if pending f s = [] then [filler f] else pending f s)"
  proof (cases "v_len s = 0")
    case False
    then have "take (v_len s) (v_units s) \<noteq> []" using assms by auto
    then show ?thesis using False by (simp add: refill_def pending_def)
  next
    case True
    obtain str tg n where g: "get_next_version_component (v s) (v_units s) f = (str, tg, n)"
      by (cases "get_next_version_component (v s) (v_units s) f")
    have e: "take n tg = emitted f (v s)"
      using get_next_version_component_emitted[OF assms(1), of "v s" f] g by simp
    have c: "str = fst (get_next_version_component (v s) [indeterminate, indeterminate] f)"
      using get_next_version_component_cursor_indep[of "v s" "v_units s" f "[indeterminate, indeterminate]"] g
      by simp
    have p: "pending f (refill f s) = emitted f (v s) @ components f str"
      using True g e by (simp add: refill_def pending_def)
    show ?thesis
    proof (cases "peek (v s) = NUL")
      case at_end: True
      then have "str = v s" using get_next_version_component_at_end[of "v s" "v_units s" f] g by simp
      then show ?thesis using at_end True p
        by (simp add: pending_def components_at_end emitted_at_end)
    next
      case False
      then have "components f (v s) = emitted f (v s) @ components f str"
        using c by (simp add: components.simps[of f "v s"])
      moreover have "pending f s = components f (v s)" using True by (simp add: pending_def)
      ultimately have ps: "pending f s = emitted f (v s) @ components f str" by simp
      then have "pending f s \<noteq> []" using emitted_nonempty[of f "v s"] by simp
      then show ?thesis using ps p by simp
    qed
  qed
qed

lemma padded_compare_filler_left:
  "padded_compare fl (if xs = [] then [fl] else xs) ys = padded_compare fl xs ys"
  using padded_compare_pad[of fl "[]" 1 ys] by simp

lemma padded_compare_filler_right:
  "padded_compare fl xs (if ys = [] then [fl] else ys) = padded_compare fl xs ys"
  using padded_compare_pad_right[of fl xs "[]" 1] by simp

lemma upt_1: "[0..<1] = [0]"
  by (simp add: upt_rec)

lemma upt_2: "[0..<2] = [0, 1]"
  by (simp add: upt_rec)

lemma compare_loop_padded:
  assumes "length U1 = 2" "length U2 = 2" "1 \<le> n1" "n1 \<le> 2" "1 \<le> n2" "n2 \<le> 2"
  shows "padded_compare fl (take n1 U1 @ C1) (take n2 U2 @ C2) =
     (if compare_loop U1 U2 [0..<min n1 n2] \<noteq> 0 then compare_loop U1 U2 [0..<min n1 n2]
      else padded_compare fl (drop (min n1 n2) (take n1 U1) @ C1) (drop (min n1 n2) (take n2 U2) @ C2))"
proof -
  obtain x1 y1 where U1: "U1 = [x1, y1]" using assms(1) by (cases U1; cases "tl U1") auto
  obtain x2 y2 where U2: "U2 = [x2, y2]" using assms(2) by (cases U2; cases "tl U2") auto
  have n1: "n1 = 1 \<or> n1 = 2" using assms by auto
  have n2: "n2 = 1 \<or> n2 = 2" using assms by auto
  show ?thesis using n1 n2 unfolding U1 U2
    by (auto simp: upt_1 upt_2 Let_def)
qed

lemma shift_loop_length: "length (shift_loop k u is) = length u"
  by (induction k u "is" rule: shift_loop.induct) simp_all

lemma advance_pending:
  assumes "length (v_units r) = 2" "1 \<le> k" "k \<le> v_len r" "v_len r \<le> 2"
    and "d \<longrightarrow> k = 1" "\<not> d \<longrightarrow> k = v_len r"
    and "advance d k r = (t, e)"
  shows "pending f t = drop k (take (v_len r) (v_units r)) @ components f (v r)"
    and "length (v_units t) = 2" and "v_len t \<le> 2" and "e \<longrightarrow> pending f t = []"
proof -
  obtain x y where U: "v_units r = [x, y]" using assms(1) by (cases "v_units r"; cases "tl (v_units r)") auto
  define units where "units = (if d then shift_loop k (v_units r) [0..<k] else v_units r)"
  have t: "v t = v r" "v_units t = units" "v_len t = v_len r - k"
    using assms(7) by (auto simp: advance_def Let_def units_def split: if_splits)
  have e: "e \<longrightarrow> peek (v r) = NUL \<and> v_len r - k = 0"
    using assms(7) by (auto simp: advance_def Let_def split: if_splits)
  have n: "v_len r = 1 \<or> v_len r = 2" using assms by auto
  have front: "take (v_len r - k) units = drop k (take (v_len r) (v_units r))"
  proof (cases d)
    case False
    then have "k = v_len r" using assms(6) by simp
    then show ?thesis by simp
  next
    case True
    then have k1: "k = 1" using assms(5) by simp
    have u: "units = [y, y]" using True by (simp add: units_def k1 upt_1 U)
    from n show ?thesis
    proof
      assume "v_len r = 1"
      then show ?thesis by (simp add: k1)
    next
      assume "v_len r = 2"
      then show ?thesis by (simp add: k1 u U)
    qed
  qed
  show "pending f t = drop k (take (v_len r) (v_units r)) @ components f (v r)"
    by (simp add: pending_def t front)
  show "length (v_units t) = 2" using assms(1) by (simp add: t units_def shift_loop_length)
  show "v_len t \<le> 2" using assms by (simp add: t)
  show "e \<longrightarrow> pending f t = []" using e by (auto simp: pending_def t components_at_end)
qed

lemma iteration_pending:
  assumes "buffered s1" "buffered s2"
  shows "case iteration f g (s1, s2) of
           Inl res \<Rightarrow> padded_compare fl (pending f (refill f s1)) (pending g (refill g s2)) = res
         | Inr st' \<Rightarrow>
             padded_compare fl (pending f (refill f s1)) (pending g (refill g s2)) =
               padded_compare fl (pending f (fst st')) (pending g (snd st')) \<and>
             buffered (fst st') \<and> buffered (snd st')"
proof -
  define r1 where "r1 = refill f s1"
  define r2 where "r2 = refill g s2"
  define k where "k = min (v_len r1) (v_len r2)"
  define d where "d = (v_len r1 \<noteq> v_len r2)"
  define res where "res = compare_loop (v_units r1) (v_units r2) [0..<k]"
  have b1: "length (v_units r1) = 2" "1 \<le> v_len r1" "v_len r1 \<le> 2"
    using refill_pending(1,2,3)[of s1 f] assms(1) by (simp_all add: buffered_def r1_def)
  have b2: "length (v_units r2) = 2" "1 \<le> v_len r2" "v_len r2 \<le> 2"
    using refill_pending(1,2,3)[of s2 g] assms(2) by (simp_all add: buffered_def r2_def)
  have k: "1 \<le> k" "k \<le> v_len r1" "k \<le> v_len r2" "d \<longrightarrow> k = 1" "\<not> d \<longrightarrow> k = v_len r1" "\<not> d \<longrightarrow> k = v_len r2"
    using b1 b2 by (auto simp: k_def d_def)
  have c: "padded_compare fl (pending f r1) (pending g r2) =
     (if res \<noteq> 0 then res
      else padded_compare fl (drop k (take (v_len r1) (v_units r1)) @ components f (v r1))
             (drop k (take (v_len r2) (v_units r2)) @ components g (v r2)))"
    unfolding pending_def res_def k_def
    by (rule compare_loop_padded[OF b1(1) b2(1) b1(2) b1(3) b2(2) b2(3)])
  obtain t1 e1 where a1: "advance d k r1 = (t1, e1)" by (cases "advance d k r1")
  obtain t2 e2 where a2: "advance d k r2 = (t2, e2)" by (cases "advance d k r2")
  note p1 = advance_pending[OF b1(1) k(1) k(2) b1(3) k(4) k(5) a1]
  note p2 = advance_pending[OF b2(1) k(1) k(3) b2(3) k(4) k(6) a2]
  have it: "iteration f g (s1, s2) =
      (if res \<noteq> 0 then Inl res else if \<not> e1 \<or> \<not> e2 then Inr (t1, t2) else Inl 0)"
    unfolding iteration_def Let_def fst_conv snd_conv r1_def[symmetric] r2_def[symmetric]
      k_def[symmetric] d_def[symmetric] res_def[symmetric] a1 a2 prod.case
    by simp
  show ?thesis
  proof (cases "res \<noteq> 0")
    case True
    then show ?thesis using c by (simp add: it r1_def r2_def)
  next
    case False
    then have c': "padded_compare fl (pending f r1) (pending g r2) =
        padded_compare fl (pending f t1) (pending g t2)"
      using c p1(1) p2(1) by simp
    show ?thesis
    proof (cases "\<not> e1 \<or> \<not> e2")
      case True
      then show ?thesis using False c' p1(2,3) p2(2,3)
        by (simp add: it r1_def r2_def buffered_def)
    next
      case both: False
      then have "pending f t1 = []" "pending g t2 = []" using p1(4) p2(4) by simp_all
      then show ?thesis using False both c' by (simp add: it r1_def r2_def)
    qed
  qed
qed

lemma loop_padded:
  assumes fl: "filler f = fl" "filler g = fl"
  shows "buffered (fst st) \<Longrightarrow> buffered (snd st) \<Longrightarrow>
    loop f g st = padded_compare fl (pending f (fst st)) (pending g (snd st))"
proof (induction "loop_measure st" arbitrary: st rule: less_induct)
  case less
  obtain s1 s2 where st: "st = (s1, s2)" by (cases st)
  have b: "buffered s1" "buffered s2" using less.prems by (simp_all add: st)
  then have l: "length (v_units s1) = 2" "v_len s1 \<le> 2" "length (v_units s2) = 2" "v_len s2 \<le> 2"
    by (simp_all add: buffered_def)
  have r: "padded_compare fl (pending f (refill f s1)) (pending g (refill g s2)) =
      padded_compare fl (pending f s1) (pending g s2)"
    by (simp only: refill_pending(4)[OF l(1,2)] refill_pending(4)[OF l(3,4)] fl
        padded_compare_filler_left padded_compare_filler_right)
  note ip = iteration_pending[OF b, where f = f and g = g and fl = fl]
  show ?case
  proof (cases "iteration f g st")
    case (Inl res)
    then have "padded_compare fl (pending f s1) (pending g s2) = res"
      using ip r by (simp add: st)
    then show ?thesis using Inl by (simp add: loop.simps[of f g st] st)
  next
    case (Inr st')
    then have m: "loop_measure st' < loop_measure st" by (rule iteration_progress)
    from Inr have "padded_compare fl (pending f s1) (pending g s2) =
        padded_compare fl (pending f (fst st')) (pending g (snd st'))"
      and b': "buffered (fst st')" "buffered (snd st')"
      using ip r by (simp_all add: st)
    moreover have "loop f g st' = padded_compare fl (pending f (fst st')) (pending g (snd st'))"
      using m b' by (rule less.hyps)
    ultimately show ?thesis using Inr by (simp add: loop.simps[of f g st] st)
  qed
qed

lemma version_compare4_padded:
  "version_compare4 x y f f = padded_compare (filler f) (components f x) (components f y)"
proof -
  have "buffered (init_side x f)" "buffered (init_side y f)"
    by (simp_all add: buffered_def init_side_def)
  then have "loop f f (init_side x f, init_side y f) =
      padded_compare (filler f) (pending f (init_side x f)) (pending f (init_side y f))"
    using loop_padded[of f "filler f" f "(init_side x f, init_side y f)"] by simp
  then show ?thesis by (simp add: version_compare4_def pending_def init_side_def)
qed

text \<open>
  C6: transitivity. With the same flag word \<open>f\<close> on both sides of every call, if
  \<open>version_compare4 x y f f \<le> 0\<close> and \<open>version_compare4 y z f f \<le> 0\<close> then
  \<open>version_compare4 x z f f \<le> 0\<close>.
\<close>

theorem version_compare4_transitive:
  "version_compare4 x y f f \<le> 0 \<Longrightarrow> version_compare4 y z f f \<le> 0 \<Longrightarrow>
     version_compare4 x z f f \<le> 0"
  unfolding version_compare4_padded by (rule padded_compare_trans)

theorem version_compare4_transitive_witness:
  "version_compare4 ''1.0alpha1'' ''1.0'' 0 0 \<le> 0 \<and>
   version_compare4 ''1.0'' ''1.0patch1'' 0 0 \<le> 0 \<and>
   version_compare4 ''1.0alpha1'' ''1.0patch1'' 0 0 \<le> 0"
proof -
  have h1: "version_compare4 ''1.0alpha1'' ''1.0'' 0 0 \<le> 0" by code_simp
  have h2: "version_compare4 ''1.0'' ''1.0patch1'' 0 0 \<le> 0" by code_simp
  from h1 h2 version_compare4_transitive[OF h1 h2] show ?thesis by (intro conjI)
qed

end
